theory Spec2Isabelle
  imports Complex_Main "HOL-Library.Multiset"
begin

section \<open>Tiles, cells and boards\<close>

text \<open>
  A tile is the JavaScript object \<^verbatim>\<open>{ id, r, c, value }\<close>, to which \<^verbatim>\<open>slideLine\<close> may add
  the marks \<^verbatim>\<open>bump\<close> (the tile is the result of a merge) and \<^verbatim>\<open>dead\<close> (the tile was merged
  into another one).  An absent mark reads as \<^verbatim>\<open>undefined\<close>, which is falsy, and is modelled
  as \<open>False\<close>.  Coordinates and values are JavaScript numbers holding integers.
\<close>

record tile =
  t_id :: nat
  t_r :: int
  t_c :: int
  t_value :: int
  t_bump :: bool
  t_dead :: bool

text \<open>
  An array element is \<^verbatim>\<open>null\<close>, a tile object, or \<^verbatim>\<open>undefined\<close> (a hole left behind when an
  assignment beyond the end of the array extends it).
\<close>

datatype cell = Undefined | Null | Obj tile

datatype error = TypeError

fun truthy :: "cell \<Rightarrow> bool" where
  "truthy (Obj t) = True"
| "truthy Null = False"
| "truthy Undefined = False"

text \<open>Reading an array element: an index beyond the end yields \<^verbatim>\<open>undefined\<close>.\<close>

definition cell_at :: "cell list \<Rightarrow> nat \<Rightarrow> cell" where
  "cell_at xs i = (if i < length xs then xs ! i else Undefined)"

text \<open>
  Writing an array element \<^verbatim>\<open>a[c] = x\<close>: inside the array it replaces the element, beyond
  the end it extends the array with holes, and a negative index only sets a property of the
  array object, which no indexed read, \<^verbatim>\<open>slice\<close> or \<^verbatim>\<open>length\<close> sees.
\<close>

definition store :: "cell list \<Rightarrow> int \<Rightarrow> cell \<Rightarrow> cell list" where
  "store a c x =
     (if c < 0 then a
      else if nat c < length a then a[nat c := x]
      else a @ replicate (nat c - length a) Undefined @ [x])"

text \<open>\<^verbatim>\<open>const empty = (n) => Array.from({ length: n }, () => Array(n).fill(null))\<close>\<close>

definition empty_board :: "nat \<Rightarrow> cell list list" where
  "empty_board n = replicate n (replicate n Null)"

text \<open>\<^verbatim>\<open>const cloneTiles = (tiles) => tiles.map((t) => ({ ...t }))\<close>: a copy of every tile.\<close>

definition cloneTiles :: "tile list \<Rightarrow> tile list" where
  "cloneTiles tiles = map (\<lambda>t. t) tiles"

text \<open>
  \<^verbatim>\<open>b[t.r][t.c] = t\<close>: when \<^verbatim>\<open>t.r\<close> is not a row of the board, \<^verbatim>\<open>b[t.r]\<close> is
  \<^verbatim>\<open>undefined\<close> and the assignment throws a \<^verbatim>\<open>TypeError\<close>.
\<close>

definition place :: "cell list list \<Rightarrow> tile \<Rightarrow> error + cell list list" where
  "place b t =
     (if t_r t < 0 \<or> int (length b) \<le> t_r t then Inl TypeError
      else Inr (b[nat (t_r t) := store (b ! nat (t_r t)) (t_c t) (Obj t)]))"

fun place_all :: "cell list list \<Rightarrow> tile list \<Rightarrow> error + cell list list" where
  "place_all b [] = Inr b"
| "place_all b (t # ts) =
     (case place b t of Inl e \<Rightarrow> Inl e | Inr b' \<Rightarrow> place_all b' ts)"

text \<open>
  \<^verbatim>\<open>const toBoard = (tiles, n) => { const b = empty(n); for (const t of tiles) b[t.r][t.c] = t; return b; }\<close>
\<close>

definition toBoard :: "tile list \<Rightarrow> nat \<Rightarrow> error + cell list list" where
  "toBoard tiles n = place_all (empty_board n) tiles"

section \<open>The spawner\<close>

text \<open>
  \<^verbatim>\<open>const rnd = (n) => Math.floor(Math.random() * n)\<close>.  The value drawn from
  \<^verbatim>\<open>Math.random()\<close> is the parameter \<open>u\<close>, a number in \<open>[0, 1)\<close>; the product is the exact one,
  without the rounding of the floating-point multiplication.
\<close>

definition rnd :: "real \<Rightarrow> nat \<Rightarrow> nat" where
  "rnd u n = nat \<lfloor>u * real n\<rfloor>"

text \<open>
  The cells that \<^verbatim>\<open>spawn\<close> pushes on \<^verbatim>\<open>free\<close>, in row-major order.  The board comes from
  \<^verbatim>\<open>toBoard\<close>, whose boards have \<open>n\<close> rows of at least \<open>n\<close> cells (lemma \<open>toBoard_cells\<close>), so
  that here and in \<^verbatim>\<open>move\<close> the reads \<^verbatim>\<open>b[r][c]\<close> with \<open>r, c < n\<close> are inside the arrays.
\<close>

definition free_cells :: "cell list list \<Rightarrow> nat \<Rightarrow> (nat \<times> nat) list" where
  "free_cells b n =
     concat (map (\<lambda>r. concat (map (\<lambda>c. if \<not> truthy (b ! r ! c) then [(r, c)] else [])
                                   [0..<n])) [0..<n])"

text \<open>
  \<^verbatim>\<open>spawn(tiles, n, bias)\<close>.  The two draws of \<^verbatim>\<open>Math.random()\<close> are \<open>u1\<close> and \<open>u2\<close>, and
  \<open>ctr\<close> is the counter behind \<^verbatim>\<open>uid\<close>, returned advanced when an identity was taken.
\<close>

definition spawn :: "tile list \<Rightarrow> nat \<Rightarrow> real \<Rightarrow> real \<Rightarrow> real \<Rightarrow> nat \<Rightarrow> error + (tile list \<times> nat)" where
  "spawn tiles n bias u1 u2 ctr =
     (case toBoard tiles n of
        Inl e \<Rightarrow> Inl e
      | Inr b \<Rightarrow>
          (let free = free_cells b n in
           if length free = 0 then Inr (tiles, ctr)
           else
             (let rc = free ! rnd u1 (length free);
                  v = (if u2 < bias then 2 else 4)
              in Inr (tiles @ [\<lparr>t_id = ctr, t_r = int (fst rc), t_c = int (snd rc), t_value = v,
                                 t_bump = False, t_dead = False\<rparr>], ctr + 1))))"

section \<open>The terminal detector\<close>

text \<open>
  The body of the two nested loops of \<^verbatim>\<open>anyMovesLeft\<close> at the cell \<open>(r, c)\<close>: whether the
  function returns \<^verbatim>\<open>true\<close> there.
\<close>

definition same_value :: "cell \<Rightarrow> cell \<Rightarrow> bool" where
  "same_value x y = (case (x, y) of (Obj a, Obj b) \<Rightarrow> t_value a = t_value b | _ \<Rightarrow> False)"

definition move_at :: "cell list list \<Rightarrow> nat \<Rightarrow> nat \<Rightarrow> nat \<Rightarrow> bool" where
  "move_at board n r c =
     (let t = cell_at (board ! r) c in
      if \<not> truthy t then True
      else if r + 1 < n \<and> truthy (cell_at (board ! (r + 1)) c)
                \<and> same_value (cell_at (board ! (r + 1)) c) t then True
      else if c + 1 < n \<and> truthy (cell_at (board ! r) (c + 1))
                \<and> same_value (cell_at (board ! r) (c + 1)) t then True
      else False)"

fun scan_cells :: "cell list list \<Rightarrow> nat \<Rightarrow> (nat \<times> nat) list \<Rightarrow> bool" where
  "scan_cells board n [] = False"
| "scan_cells board n ((r, c) # ps) =
     (if move_at board n r c then True else scan_cells board n ps)"

definition anyMovesLeft :: "cell list list \<Rightarrow> bool" where
  "anyMovesLeft board =
     (let n = length board in scan_cells board n (List.product [0..<n] [0..<n]))"

section \<open>The line reducer\<close>

text \<open>
  \<^verbatim>\<open>slideLine(line, dir)\<close> is called with \<^verbatim>\<open>dir\<close> equal to \<^verbatim>\<open>-1\<close> or \<^verbatim>\<open>+1\<close> only
  (\<^verbatim>\<open>dir === 'L' ? -1 : +1\<close> and \<^verbatim>\<open>dir === 'U' ? -1 : +1\<close>).
\<close>

datatype dirn = Neg | Pos

fun delta :: "dirn \<Rightarrow> int" where
  "delta Neg = - 1"
| "delta Pos = 1"

text \<open>
  \<^verbatim>\<open>const order = [...Array(n).keys()]; if (dir === +1) order.reverse();\<close>
\<close>

definition order :: "nat \<Rightarrow> dirn \<Rightarrow> nat list" where
  "order n d = (if d = Pos then rev [0..<n] else [0..<n])"

text \<open>
  The \<^verbatim>\<open>while (true)\<close> loop, from the resting index \<open>ni\<close> reached so far, for a tile of
  value \<open>v\<close>; the result is the final \<^verbatim>\<open>ni\<close>.
\<close>

function scan :: "cell list \<Rightarrow> nat set \<Rightarrow> int \<Rightarrow> dirn \<Rightarrow> nat \<Rightarrow> nat" where
  "scan line lk v d ni =
     (if int ni + delta d < 0 \<or> int (length line) \<le> int ni + delta d then ni
      else if line ! nat (int ni + delta d) = Null then scan line lk v d (nat (int ni + delta d))
      else if nat (int ni + delta d) \<notin> lk
                \<and> (case line ! nat (int ni + delta d) of Obj u \<Rightarrow> t_value u = v | _ \<Rightarrow> False)
           then nat (int ni + delta d)
      else ni)"
  by pat_completeness auto
termination
  by (relation "measure (\<lambda>(line, lk, v, d, ni). case d of Neg \<Rightarrow> ni | Pos \<Rightarrow> length line - ni)")
     (auto split: dirn.splits)

declare scan.simps [simp del]

text \<open>
  The state of one call: the working \<^verbatim>\<open>line\<close>, the set \<^verbatim>\<open>locked\<close> and the two results
  \<^verbatim>\<open>moved\<close> and \<^verbatim>\<open>gained\<close>.
\<close>

record sl =
  sl_line :: "cell list"
  sl_locked :: "nat set"
  sl_moved :: bool
  sl_gained :: int

text \<open>
  \<^verbatim>\<open>line[ni] && line[ni].value === t.value && !locked.has(ni)\<close>
\<close>

definition mergeable :: "sl \<Rightarrow> tile \<Rightarrow> nat \<Rightarrow> bool" where
  "mergeable s t ni =
     ((case sl_line s ! ni of Obj u \<Rightarrow> t_value u = t_value t | _ \<Rightarrow> False) \<and> ni \<notin> sl_locked s)"

text \<open>
  The merge branch.  The tile \<open>t\<close> of the source cell is marked \<^verbatim>\<open>dead\<close> and leaves the
  line; no array refers to it afterwards, so the mark is not part of the state.
\<close>

definition do_merge :: "sl \<Rightarrow> nat \<Rightarrow> nat \<Rightarrow> sl" where
  "do_merge s i ni =
     (case sl_line s ! ni of
        Obj u \<Rightarrow>
          s\<lparr>sl_line := (sl_line s)[ni := Obj (u\<lparr>t_value := t_value u * 2, t_bump := True\<rparr>), i := Null],
            sl_locked := insert ni (sl_locked s),
            sl_moved := True,
            sl_gained := sl_gained s + t_value u * 2\<rparr>
      | _ \<Rightarrow> s)"

definition do_slide :: "sl \<Rightarrow> tile \<Rightarrow> nat \<Rightarrow> nat \<Rightarrow> sl" where
  "do_slide s t i ni = s\<lparr>sl_line := (sl_line s)[ni := Obj t, i := Null], sl_moved := True\<rparr>"

text \<open>One iteration of \<^verbatim>\<open>for (const i of order)\<close>.\<close>

definition sl_step :: "dirn \<Rightarrow> sl \<Rightarrow> nat \<Rightarrow> sl" where
  "sl_step d s i =
     (case sl_line s ! i of
        Obj t \<Rightarrow>
          (let ni = scan (sl_line s) (sl_locked s) (t_value t) d i in
           if ni \<noteq> i then
             (if mergeable s t ni then do_merge s i ni else do_slide s t i ni)
           else s)
      | _ \<Rightarrow> s)"

definition sl_init :: "cell list \<Rightarrow> sl" where
  "sl_init line = \<lparr>sl_line = line, sl_locked = {}, sl_moved = False, sl_gained = 0\<rparr>"

definition slideLine :: "cell list \<Rightarrow> dirn \<Rightarrow> sl" where
  "slideLine line d = foldl (sl_step d) (sl_init line) (order (length line) d)"

text \<open>
  What an iteration does, as an event: the cell is skipped, the tile stays, the tile slides
  from \<open>i\<close> to \<open>ni\<close>, or the tile of \<open>i\<close> merges into the tile of \<open>ni\<close>.
\<close>

datatype event = Skip nat | Stay nat | Slide nat nat | Merge nat nat

definition sl_event :: "dirn \<Rightarrow> sl \<Rightarrow> nat \<Rightarrow> event" where
  "sl_event d s i =
     (case sl_line s ! i of
        Obj t \<Rightarrow>
          (let ni = scan (sl_line s) (sl_locked s) (t_value t) d i in
           if ni \<noteq> i then
             (if mergeable s t ni then Merge i ni else Slide i ni)
           else Stay i)
      | _ \<Rightarrow> Skip i)"

fun sl_trace :: "dirn \<Rightarrow> sl \<Rightarrow> nat list \<Rightarrow> event list" where
  "sl_trace d s [] = []"
| "sl_trace d s (i # is) = sl_event d s i # sl_trace d (sl_step d s i) is"

definition trace :: "cell list \<Rightarrow> dirn \<Rightarrow> event list" where
  "trace line d = sl_trace d (sl_init line) (order (length line) d)"

section \<open>The board mover\<close>

text \<open>
  \<^verbatim>\<open>move\<close> is called with \<^verbatim>\<open>'L'\<close>, \<^verbatim>\<open>'R'\<close>, \<^verbatim>\<open>'U'\<close> or \<^verbatim>\<open>'D'\<close>.  It works on copies of
  the tiles, each of which lies in one cell of the board only, so that the assignments to the
  fields of a tile of the board change that cell and nothing else.
\<close>

datatype mdir = L | R | U | D

text \<open>\<^verbatim>\<open>if (b[r][c]) { b[r][c].r = r; b[r][c].c = c; }\<close>\<close>

definition mark :: "cell list list \<Rightarrow> nat \<Rightarrow> nat \<Rightarrow> cell list list" where
  "mark b r c =
     (case b ! r ! c of
        Obj t \<Rightarrow> b[r := (b ! r)[c := Obj (t\<lparr>t_r := int r, t_c := int c\<rparr>)]]
      | _ \<Rightarrow> b)"

text \<open>The body of the loop over the rows, for \<^verbatim>\<open>'L'\<close> and \<^verbatim>\<open>'R'\<close>.\<close>

definition row_step :: "dirn \<Rightarrow> nat \<Rightarrow> cell list list \<times> bool \<times> int \<Rightarrow> nat \<Rightarrow> cell list list \<times> bool \<times> int" where
  "row_step d n st r =
     (case st of (b, moved, gained) \<Rightarrow>
        (let res = slideLine (b ! r) d;
             b1 = b[r := sl_line res]
         in (foldl (\<lambda>b' c. mark b' r c) b1 [0..<n], moved \<or> sl_moved res, gained + sl_gained res)))"

text \<open>The body of the loop over the columns, for \<^verbatim>\<open>'U'\<close> and \<^verbatim>\<open>'D'\<close>.\<close>

definition col_step :: "dirn \<Rightarrow> nat \<Rightarrow> cell list list \<times> bool \<times> int \<Rightarrow> nat \<Rightarrow> cell list list \<times> bool \<times> int" where
  "col_step d n st c =
     (case st of (b, moved, gained) \<Rightarrow>
        (let col = map (\<lambda>r. b ! r ! c) [0..<n];
             res = slideLine col d
         in (foldl (\<lambda>b' r. mark (b'[r := (b' ! r)[c := sl_line res ! r]]) r c) b [0..<n],
             moved \<or> sl_moved res, gained + sl_gained res)))"

text \<open>The board and the two flags after the loops of \<^verbatim>\<open>move\<close>.\<close>

definition move_grid :: "tile list \<Rightarrow> nat \<Rightarrow> mdir \<Rightarrow> error + (cell list list \<times> bool \<times> int)" where
  "move_grid tiles n dir =
     (case toBoard (cloneTiles tiles) n of
        Inl e \<Rightarrow> Inl e
      | Inr b \<Rightarrow>
          Inr (if dir = L \<or> dir = R
               then foldl (row_step (if dir = L then Neg else Pos) n) (b, False, 0) [0..<n]
               else foldl (col_step (if dir = U then Neg else Pos) n) (b, False, 0) [0..<n]))"

text \<open>
  \<^verbatim>\<open>const next = []; for (let r ...) for (let c ...) if (b[r][c]) next.push(b[r][c]);\<close>
\<close>

definition collect :: "cell list list \<Rightarrow> nat \<Rightarrow> tile list" where
  "collect b n =
     concat (map (\<lambda>r. concat (map (\<lambda>c. case b ! r ! c of Obj t \<Rightarrow> [t] | _ \<Rightarrow> []) [0..<n]))
                 [0..<n])"

record move_result =
  mv_tiles :: "tile list"
  mv_moved :: bool
  mv_gained :: int

definition move :: "tile list \<Rightarrow> nat \<Rightarrow> mdir \<Rightarrow> error + move_result" where
  "move tiles n dir =
     (case move_grid tiles n dir of
        Inl e \<Rightarrow> Inl e
      | Inr (b, moved, gained) \<Rightarrow>
          Inr \<lparr>mv_tiles = filter (\<lambda>t. \<not> t_dead t) (collect b n),
               mv_moved = moved, mv_gained = gained\<rparr>)"

section \<open>Well-formed tile sets and terminal boards\<close>

text \<open>Every tile lies in a row of the \<open>n \<times> n\<close> grid.\<close>

definition rows_ok :: "tile list \<Rightarrow> nat \<Rightarrow> bool" where
  "rows_ok tiles n = list_all (\<lambda>t. 0 \<le> t_r t \<and> t_r t < int n) tiles"

text \<open>The board invariant: all coordinates in \<open>[0, n)\<close>, and no two tiles on one cell.\<close>

definition in_bounds :: "tile list \<Rightarrow> nat \<Rightarrow> bool" where
  "in_bounds tiles n =
     list_all (\<lambda>t. 0 \<le> t_r t \<and> t_r t < int n \<and> 0 \<le> t_c t \<and> t_c t < int n) tiles"

definition wellformed :: "tile list \<Rightarrow> nat \<Rightarrow> bool" where
  "wellformed tiles n = (in_bounds tiles n \<and> distinct (map (\<lambda>t. (t_r t, t_c t)) tiles))"

text \<open>The last tile of the list that lies on the cell \<open>(r, c)\<close>.\<close>

definition last_at :: "tile list \<Rightarrow> nat \<Rightarrow> nat \<Rightarrow> tile option" where
  "last_at tiles r c = find (\<lambda>t. t_r t = int r \<and> t_c t = int c) (rev tiles)"

text \<open>A board of \<open>n\<close> rows, each with at least (resp. exactly) \<open>n\<close> cells.\<close>

definition tall :: "nat \<Rightarrow> cell list list \<Rightarrow> bool" where
  "tall n b = (length b = n \<and> (\<forall>r<n. n \<le> length (b ! r)))"

definition square :: "nat \<Rightarrow> cell list list \<Rightarrow> bool" where
  "square n b = (length b = n \<and> list_all (\<lambda>row. length row = n) b)"

text \<open>Every cell of the grid holds a tile of the set.\<close>

definition full :: "tile list \<Rightarrow> nat \<Rightarrow> bool" where
  "full tiles n =
     (\<forall>r\<in>set [0..<n]. \<forall>c\<in>set [0..<n]. \<exists>t\<in>set tiles. t_r t = int r \<and> t_c t = int c)"

definition occupied :: "cell list list \<Rightarrow> nat \<Rightarrow> nat \<Rightarrow> bool" where
  "occupied b r c = (case b ! r ! c of Obj t \<Rightarrow> True | _ \<Rightarrow> False)"

definition equal_cells :: "cell list list \<Rightarrow> nat \<Rightarrow> nat \<Rightarrow> nat \<Rightarrow> nat \<Rightarrow> bool" where
  "equal_cells b r c r' c' =
     (case (b ! r ! c, b ! r' ! c') of (Obj t, Obj t') \<Rightarrow> t_value t = t_value t' | _ \<Rightarrow> False)"

text \<open>
  The terminal state: no empty cell, and no two horizontally or vertically adjacent cells with
  equal values.
\<close>

definition stuck :: "cell list list \<Rightarrow> bool" where
  "stuck b =
     (let n = length b in
      (\<forall>r\<in>set [0..<n]. \<forall>c\<in>set [0..<n]. occupied b r c)
      \<and> (\<forall>r\<in>set [0..<n]. \<forall>c\<in>set [0..<n]. c + 1 < n \<longrightarrow> \<not> equal_cells b r c r (c + 1))
      \<and> (\<forall>r\<in>set [0..<n]. \<forall>c\<in>set [0..<n]. r + 1 < n \<longrightarrow> \<not> equal_cells b r c (r + 1) c))"

text \<open>Tiles used in the examples.\<close>

definition mk :: "nat \<Rightarrow> int \<Rightarrow> int \<Rightarrow> int \<Rightarrow> tile" where
  "mk i r c v = \<lparr>t_id = i, t_r = r, t_c = c, t_value = v, t_bump = False, t_dead = False\<rparr>"

definition full2 :: "tile list" where
  "full2 = [mk 1 0 0 2, mk 2 0 1 4, mk 3 1 0 4, mk 4 1 1 2]"


section \<open>Notions used in the statements about the line reducer\<close>

text \<open>The index \<open>a\<close> lies nearer to the target end of the line than \<open>b\<close>.\<close>

fun ahead :: "dirn \<Rightarrow> nat \<Rightarrow> nat \<Rightarrow> bool" where
  "ahead Neg a b = (a < b)"
| "ahead Pos a b = (b < a)"

text \<open>The tiles of a line, in index order, and as a multiset.\<close>

fun tiles_of :: "cell list \<Rightarrow> tile list" where
  "tiles_of [] = []"
| "tiles_of (Obj t # xs) = t # tiles_of xs"
| "tiles_of (Null # xs) = tiles_of xs"
| "tiles_of (Undefined # xs) = tiles_of xs"

fun cell_ms :: "cell \<Rightarrow> tile multiset" where
  "cell_ms (Obj t) = {#t#}"
| "cell_ms Null = {#}"
| "cell_ms Undefined = {#}"

text \<open>
  Conservation of the tile values: there is a list \<open>ms\<close> of merged values such that removing
  two tiles of value \<open>v\<close> and adding one of value \<open>2 v\<close>, for every \<open>v\<close> of the list, turns the
  values \<open>before\<close> into the values \<open>after\<close>, and \<open>g\<close> is the sum of the values created.
\<close>

definition accounted :: "int multiset \<Rightarrow> int multiset \<Rightarrow> int \<Rightarrow> bool" where
  "accounted before after g =
     (\<exists>ms. before + mset (map (\<lambda>v. v * 2) ms) = after + mset ms + mset ms
           \<and> g = sum_list (map (\<lambda>v. v * 2) ms))"

text \<open>The multiset of the values of a tile list.\<close>

definition values_of :: "tile list \<Rightarrow> int multiset" where
  "values_of ts = image_mset t_value (mset ts)"

text \<open>The events in which a tile changes its index or a merge occurs.\<close>

fun changes :: "event \<Rightarrow> bool" where
  "changes (Slide i ni) = (ni \<noteq> i)"
| "changes (Merge i ni) = True"
| "changes (Skip i) = False"
| "changes (Stay i) = False"




text \<open>
  The weight of a line: every tile counts with its distance from the far end of the line, so
  that a slide toward the target end and a merge both decrease it.
\<close>

fun rank :: "dirn \<Rightarrow> nat \<Rightarrow> nat \<Rightarrow> nat" where
  "rank Neg n k = k + 1"
| "rank Pos n k = n - k"

definition weight :: "dirn \<Rightarrow> cell list \<Rightarrow> nat" where
  "weight d line = (\<Sum>k<length line. if truthy (line ! k) then rank d (length line) k else 0)"

text \<open>
  A line that holds no tile; a line without an empty cell and without two neighbours of equal
  value.
\<close>

definition no_tiles :: "cell list \<Rightarrow> bool" where
  "no_tiles line \<longleftrightarrow> list_all (\<lambda>x. \<not> truthy x) line"

definition packed :: "cell list \<Rightarrow> bool" where
  "packed line \<longleftrightarrow> (\<forall>x\<in>set line. truthy x)
     \<and> (\<forall>k\<in>set [0..<length line - 1]. \<not> same_value (line ! k) (line ! (k + 1)))"


section \<open>Notions used in the statements about the board mover\<close>

text \<open>The multiset of tile values of a cell, of a line and of a board; the tiles of a board.\<close>

fun cell_vals :: "cell \<Rightarrow> int multiset" where
  "cell_vals (Obj t) = {#t_value t#}"
| "cell_vals Null = {#}"
| "cell_vals Undefined = {#}"

definition line_vals :: "cell list \<Rightarrow> int multiset" where
  "line_vals line = sum_list (map cell_vals line)"

definition board_vals :: "cell list list \<Rightarrow> int multiset" where
  "board_vals b = sum_list (map line_vals b)"

definition board_tiles :: "cell list list \<Rightarrow> tile list" where
  "board_tiles b = concat (map tiles_of b)"

text \<open>The cell after \<^verbatim>\<open>if (b[r][c]) { b[r][c].r = r; b[r][c].c = c; }\<close>.\<close>

fun relabel :: "nat \<Rightarrow> nat \<Rightarrow> cell \<Rightarrow> cell" where
  "relabel r c (Obj t) = Obj (t\<lparr>t_r := int r, t_c := int c\<rparr>)"
| "relabel r c Null = Null"
| "relabel r c Undefined = Undefined"

text \<open>Every tile of the grid stores, in its fields \<^verbatim>\<open>r\<close> and \<^verbatim>\<open>c\<close>, the cell that holds it.\<close>

definition labeled :: "nat \<Rightarrow> cell list list \<Rightarrow> bool" where
  "labeled n b =
     (\<forall>r\<in>set [0..<n]. \<forall>c\<in>set [0..<n].
        case b ! r ! c of Obj t \<Rightarrow> t_r t = int r \<and> t_c t = int c | _ \<Rightarrow> True)"

text \<open>
  No tile carries the mark \<^verbatim>\<open>dead\<close>.  The tile of the data model has no such field:
  \<^verbatim>\<open>slideLine\<close> sets the mark on a tile that it removes, and \<^verbatim>\<open>move\<close> filters on it, so no tile
  that \<^verbatim>\<open>spawn\<close> or \<^verbatim>\<open>move\<close> returns carries it.
\<close>

definition live :: "tile list \<Rightarrow> bool" where
  "live ts = list_all (\<lambda>t. \<not> t_dead t) ts"

text \<open>A row all of whose cells were relabelled.\<close>

definition relabel_row :: "nat \<Rightarrow> cell list \<Rightarrow> cell list" where
  "relabel_row r row = map (\<lambda>c. relabel r c (row ! c)) [0..<length row]"

text \<open>A cell that holds no tile marked \<^verbatim>\<open>dead\<close>.\<close>

fun alive :: "cell \<Rightarrow> bool" where
  "alive (Obj t) = (\<not> t_dead t)"
| "alive Null = True"
| "alive Undefined = True"

text \<open>
  The invariant of the loops of \<^verbatim>\<open>move\<close> over the board \<open>b\<close>, the flag \<open>m\<close> and the gain \<open>g\<close>,
  relative to the board \<open>b0\<close> that \<^verbatim>\<open>toBoard\<close> built.
\<close>

definition board_inv :: "nat \<Rightarrow> cell list list \<Rightarrow> cell list list \<times> bool \<times> int \<Rightarrow> bool" where
  "board_inv n b0 st =
     (case st of (b, m, g) \<Rightarrow>
        square n b \<and> labeled n b
        \<and> (list_all (list_all alive) b0 \<longrightarrow> list_all (list_all alive) b)
        \<and> accounted (board_vals b0) (board_vals b) g
        \<and> (\<not> m \<longrightarrow> b = b0 \<and> g = 0))"


section \<open>The line reduction in the words of the specification\<close>

text \<open>The tile that a merge leaves at the destination: the value doubled, the merge mark set.\<close>

definition merged :: "tile \<Rightarrow> tile" where
  "merged u = u\<lparr>t_value := t_value u * 2, t_bump := True\<rparr>"

text \<open>
  Sliding and merging on the list of the tiles of a line, read from the target end.  The tiles
  are placed one after the other next to those already placed; a tile whose value is that of
  the last tile placed merges into it, unless that tile is itself the result of a merge (the
  flag says whether it is).
\<close>

fun spec_push :: "tile list \<times> bool \<Rightarrow> tile \<Rightarrow> tile list \<times> bool" where
  "spec_push (out, lkd) t =
     (if out \<noteq> [] \<and> \<not> lkd \<and> t_value (last out) = t_value t
      then (butlast out @ [merged (last out)], True)
      else (out @ [t], False))"

definition spec_reduce :: "tile list \<Rightarrow> tile list" where
  "spec_reduce ts = fst (foldl spec_push ([], False) ts)"

text \<open>
  A line read from its target end, and the index of the \<open>k\<close>-th cell from that end.
\<close>

fun view :: "dirn \<Rightarrow> cell list \<Rightarrow> cell list" where
  "view Neg line = line"
| "view Pos line = rev line"

fun pos :: "dirn \<Rightarrow> nat \<Rightarrow> nat \<Rightarrow> nat" where
  "pos Neg n k = k"
| "pos Pos n k = n - 1 - k"

text \<open>A line without holes: every cell is \<^verbatim>\<open>null\<close> or a tile.\<close>

definition clean :: "cell list \<Rightarrow> bool" where
  "clean line = list_all (\<lambda>x. x \<noteq> Undefined) line"

text \<open>
  The invariant of the loop of \<^verbatim>\<open>slideLine\<close> after \<open>p\<close> iterations: the cells nearest the target
  end hold the tiles \<open>out\<close> placed so far, the cells up to the \<open>p\<close>-th are empty, the others are
  as in the input, and a locked index is that of a tile placed.
\<close>

definition sl_inv :: "dirn \<Rightarrow> cell list \<Rightarrow> nat \<Rightarrow> sl \<Rightarrow> tile list \<times> bool \<Rightarrow> bool" where
  "sl_inv d line0 p s ab =
     (case ab of (out, lkd) \<Rightarrow>
        length (sl_line s) = length line0 \<and> length out \<le> p
        \<and> (\<forall>k<length out. sl_line s ! pos d (length line0) k = Obj (out ! k))
        \<and> (\<forall>k. length out \<le> k \<and> k < p \<longrightarrow> sl_line s ! pos d (length line0) k = Null)
        \<and> (\<forall>k. p \<le> k \<and> k < length line0 \<longrightarrow>
              sl_line s ! pos d (length line0) k = line0 ! pos d (length line0) k)
        \<and> sl_locked s \<subseteq> pos d (length line0) ` {..<length out}
        \<and> (lkd \<longleftrightarrow> 0 < length out \<and> pos d (length line0) (length out - 1) \<in> sl_locked s))"

text \<open>One cell of the input, as seen by the specification: a tile is placed, an empty cell is not.\<close>

fun feed :: "tile list \<times> bool \<Rightarrow> cell \<Rightarrow> tile list \<times> bool" where
  "feed ab (Obj t) = spec_push ab t"
| "feed ab Null = ab"
| "feed ab Undefined = ab"

section \<open>Boards built from tile sets\<close>

lemma store_length: "length a \<le> length (store a c x)"
  by (simp add: store_def)

lemma store_nth: "k < length a \<Longrightarrow> store a c x ! k = (if c = int k then x else a ! k)"
  by (auto simp: store_def nth_append)

lemma place_Inl: "t_r t < 0 \<or> int (length b) \<le> t_r t \<Longrightarrow> place b t = Inl TypeError"
  by (simp add: place_def)

lemma place_Inr:
  assumes "0 \<le> t_r t" "t_r t < int (length b)"
  shows "place b t = Inr (b[nat (t_r t) := store (b ! nat (t_r t)) (t_c t) (Obj t)])"
  using assms by (simp add: place_def)

lemma place_all_fail:
  "\<exists>t\<in>set ts. t_r t < 0 \<or> int (length b) \<le> t_r t \<Longrightarrow> place_all b ts = Inl TypeError"
proof (induction ts arbitrary: b)
  case Nil
  then show ?case by simp
next
  case (Cons t ts)
  show ?case
  proof (cases "t_r t < 0 \<or> int (length b) \<le> t_r t")
    case True
    then show ?thesis by (simp add: place_Inl)
  next
    case False
    with Cons.prems have "\<exists>t\<in>set ts. t_r t < 0 \<or> int (length b) \<le> t_r t" by auto
    with False Cons.IH [of "b[nat (t_r t) := store (b ! nat (t_r t)) (t_c t) (Obj t)]"]
    show ?thesis by (simp add: place_Inr)
  qed
qed

lemma find_snoc:
  "find P (xs @ [x]) = (case find P xs of Some y \<Rightarrow> Some y | None \<Rightarrow> if P x then Some x else None)"
  by (induction xs) auto

lemma place_all_cells:
  assumes "tall n b" "rows_ok ts n"
  shows "\<exists>b'. place_all b ts = Inr b' \<and> tall n b' \<and>
           (\<forall>r<n. \<forall>c<n. b' ! r ! c = (case last_at ts r c of Some t \<Rightarrow> Obj t | None \<Rightarrow> b ! r ! c))"
  using assms
proof (induction ts arbitrary: b)
  case Nil
  then show ?case by (simp add: last_at_def)
next
  case (Cons t ts)
  let ?r = "nat (t_r t)"
  let ?b1 = "b[?r := store (b ! ?r) (t_c t) (Obj t)]"
  from Cons.prems have rt: "0 \<le> t_r t" "t_r t < int n" and rest: "rows_ok ts n"
    by (simp_all add: rows_ok_def)
  from Cons.prems(1) have len: "length b = n" and wide: "\<forall>r<n. n \<le> length (b ! r)"
    by (simp_all add: tall_def)
  from rt len have p: "place b t = Inr ?b1" by (simp add: place_Inr)
  have rn: "?r < n" using rt by simp
  have tall1: "tall n ?b1"
    unfolding tall_def using len wide rn store_length [of "b ! ?r" "t_c t" "Obj t"]
    by (auto simp: nth_list_update intro: order_trans)
  have cell1: "?b1 ! r ! c = (if t_r t = int r \<and> t_c t = int c then Obj t else b ! r ! c)"
    if "r < n" "c < n" for r c
  proof (cases "r = ?r")
    case True
    with that wide len have "c < length (b ! ?r)" by auto
    with True that len rt show ?thesis by (auto simp: store_nth)
  next
    case False
    with that len rt show ?thesis by auto
  qed
  from Cons.IH [OF tall1 rest] obtain b' where
    b': "place_all ?b1 ts = Inr b'" "tall n b'"
      "\<forall>r<n. \<forall>c<n. b' ! r ! c = (case last_at ts r c of Some t \<Rightarrow> Obj t | None \<Rightarrow> ?b1 ! r ! c)"
    by blast
  have "b' ! r ! c = (case last_at (t # ts) r c of Some t \<Rightarrow> Obj t | None \<Rightarrow> b ! r ! c)"
    if "r < n" "c < n" for r c
    using b'(3) that cell1 [OF that]
    by (auto simp: last_at_def find_snoc split: option.splits)
  with p b'(1,2) show ?case by simp
qed


lemma tall_empty: "tall n (empty_board n)"
  by (simp add: tall_def empty_board_def)

lemma toBoard_cells:
  assumes "rows_ok tiles n"
  shows "\<exists>b. toBoard tiles n = Inr b \<and> tall n b \<and>
           (\<forall>r<n. \<forall>c<n. b ! r ! c = (case last_at tiles r c of Some t \<Rightarrow> Obj t | None \<Rightarrow> Null))"
proof -
  from place_all_cells [OF tall_empty assms] obtain b' where
    b': "place_all (empty_board n) tiles = Inr b'" "tall n b'"
      "\<forall>r<n. \<forall>c<n. b' ! r ! c = (case last_at tiles r c of Some t \<Rightarrow> Obj t | None \<Rightarrow> empty_board n ! r ! c)"
    by blast
  have "empty_board n ! r ! c = Null" if "r < n" "c < n" for r c
    using that by (simp add: empty_board_def)
  with b' show ?thesis by (auto simp: toBoard_def split: option.splits)
qed

lemma toBoard_fail:
  assumes "\<not> rows_ok tiles n"
  shows "toBoard tiles n = Inl TypeError"
proof -
  from assms have "\<exists>t\<in>set tiles. t_r t < 0 \<or> int (length (empty_board n)) \<le> t_r t"
    by (simp add: rows_ok_def list_all_iff empty_board_def not_le not_less)
  then show ?thesis unfolding toBoard_def by (rule place_all_fail)
qed

lemma set_free_cells:
  "set (free_cells b n) = {(r, c). r < n \<and> c < n \<and> \<not> truthy (b ! r ! c)}"
  by (auto simp: free_cells_def split: if_splits)

lemma free_cells_Nil:
  "free_cells b n = [] \<longleftrightarrow> (\<forall>r<n. \<forall>c<n. truthy (b ! r ! c))"
proof -
  have "free_cells b n = [] \<longleftrightarrow> set (free_cells b n) = {}" by simp
  then show ?thesis unfolding set_free_cells by auto
qed

lemma last_at_Some_iff:
  "(\<exists>t. last_at tiles r c = Some t) \<longleftrightarrow> (\<exists>t\<in>set tiles. t_r t = int r \<and> t_c t = int c)"
proof -
  have "last_at tiles r c = None \<longleftrightarrow> \<not> (\<exists>t\<in>set tiles. t_r t = int r \<and> t_c t = int c)"
    by (simp add: last_at_def find_None_iff) blast
  then show ?thesis by (cases "last_at tiles r c") auto
qed

text \<open>
  Claim C7.  When every cell of the \<open>n \<times> n\<close> grid holds a tile of the set, \<^verbatim>\<open>spawn\<close> returns
  normally, with the tile set it was given and without taking an identity from the counter.
  The tiles are assumed to lie in rows of the grid, as those of every well-formed tile set do.
\<close>

theorem spawn_full_noop:
  assumes "rows_ok tiles n" "full tiles n"
  shows "spawn tiles n bias u1 u2 ctr = Inr (tiles, ctr)"
proof -
  from toBoard_cells [OF assms(1)] obtain b where
    b: "toBoard tiles n = Inr b"
      "\<forall>r<n. \<forall>c<n. b ! r ! c = (case last_at tiles r c of Some t \<Rightarrow> Obj t | None \<Rightarrow> Null)"
    by blast
  have "truthy (b ! r ! c)" if "r < n" "c < n" for r c
  proof -
    from assms(2) that have "\<exists>t\<in>set tiles. t_r t = int r \<and> t_c t = int c"
      by (simp add: full_def)
    then obtain t where "last_at tiles r c = Some t"
      using last_at_Some_iff by blast
    with b(2) that show ?thesis by simp
  qed
  then have "free_cells b n = []" by (simp add: free_cells_Nil)
  with b(1) show ?thesis by (simp add: spawn_def)
qed

theorem spawn_full_noop_witness:
  "rows_ok full2 2 \<and> full full2 2 \<and> spawn full2 2 (9 / 10) (1 / 2) (1 / 2) 5 = Inr (full2, 5)"
proof -
  have h1: "rows_ok full2 2" by (simp add: rows_ok_def full2_def mk_def)
  have h2: "full full2 2" by (simp add: full_def full2_def mk_def upt_rec numeral_2_eq_2)
  show ?thesis using h1 h2 spawn_full_noop [OF h1 h2, of "9 / 10" "1 / 2" "1 / 2" 5] by simp
qed

lemma rnd_less:
  assumes "0 \<le> u" "u < 1" "0 < n"
  shows "rnd u n < n"
proof -
  have "u * real n < real n" using assms by simp
  then have "\<lfloor>u * real n\<rfloor> < int n" by linarith
  moreover have "0 \<le> \<lfloor>u * real n\<rfloor>" using assms by simp
  ultimately show ?thesis unfolding rnd_def by linarith
qed

lemma wellformed_rows_ok: "wellformed tiles n \<Longrightarrow> rows_ok tiles n"
  by (auto simp: wellformed_def in_bounds_def rows_ok_def list_all_iff)

text \<open>
  What \<^verbatim>\<open>spawn\<close> does on a well-formed tile set with an empty cell, whatever \<^verbatim>\<open>Math.random()\<close>
  yields (the draws \<open>u1\<close> and \<open>u2\<close> in \<open>[0, 1)\<close>): it returns the input tiles, unchanged and in
  their order, followed by exactly one new tile.  The new tile has value 2 or 4, carries neither
  the merge mark nor the dead mark, and lies on a cell of the grid that no input tile occupies.
  Its identity is the value of the \<^verbatim>\<open>uid\<close> counter, whatever identities the input tiles carry,
  and the counter is advanced by one.
\<close>

lemma spawn_appends_tile:
  assumes wf: "wellformed tiles n"
    and emp: "\<not> full tiles n"
    and u: "0 \<le> u1" "u1 < 1"
  shows "\<exists>new. spawn tiles n bias u1 u2 ctr = Inr (tiles @ [new], ctr + 1)
           \<and> (t_value new = 2 \<or> t_value new = 4)
           \<and> t_id new = ctr
           \<and> \<not> t_bump new \<and> \<not> t_dead new
           \<and> 0 \<le> t_r new \<and> t_r new < int n \<and> 0 \<le> t_c new \<and> t_c new < int n
           \<and> \<not> (\<exists>t\<in>set tiles. t_r t = t_r new \<and> t_c t = t_c new)
           \<and> wellformed (tiles @ [new]) n"
proof -
  from wf have rows: "rows_ok tiles n" by (rule wellformed_rows_ok)
  from toBoard_cells [OF rows] obtain b where
    b: "toBoard tiles n = Inr b"
      "\<forall>r<n. \<forall>c<n. b ! r ! c = (case last_at tiles r c of Some t \<Rightarrow> Obj t | None \<Rightarrow> Null)"
    by blast
  define free where "free = free_cells b n"
  have occupied: "truthy (b ! r ! c) \<longleftrightarrow> (\<exists>t\<in>set tiles. t_r t = int r \<and> t_c t = int c)"
    if "r < n" "c < n" for r c
    using b(2) that last_at_Some_iff [of tiles r c] by (auto split: option.splits)
  from emp obtain r0 c0 where "r0 < n" "c0 < n" "\<not> truthy (b ! r0 ! c0)"
    using occupied by (auto simp: full_def)
  then have "free \<noteq> []" by (auto simp: free_def free_cells_Nil)
  then have pos: "0 < length free" by simp
  define rc where "rc = free ! rnd u1 (length free)"
  have "rc \<in> set free" unfolding rc_def using rnd_less [OF u pos] by simp
  then have rc: "fst rc < n" "snd rc < n" "\<not> truthy (b ! fst rc ! snd rc)"
    by (auto simp: free_def set_free_cells)
  define new where "new = \<lparr>t_id = ctr, t_r = int (fst rc), t_c = int (snd rc),
     t_value = (if u2 < bias then 2 else 4), t_bump = False, t_dead = False\<rparr>"
  have sp: "spawn tiles n bias u1 u2 ctr = Inr (tiles @ [new], ctr + 1)"
    using b(1) pos by (simp add: spawn_def Let_def free_def [symmetric] rc_def [symmetric] new_def)
  have fresh_cell: "\<not> (\<exists>t\<in>set tiles. t_r t = t_r new \<and> t_c t = t_c new)"
    using occupied [OF rc(1,2)] rc(3) by (simp add: new_def)
  have "(t_r new, t_c new) \<notin> (\<lambda>t. (t_r t, t_c t)) ` set tiles"
    using fresh_cell by auto
  with wf rc(1,2) have wf': "wellformed (tiles @ [new]) n"
    by (simp add: wellformed_def in_bounds_def new_def)
  from sp fresh_cell wf' rc(1,2) show ?thesis
    by (intro exI [of _ new]) (simp add: new_def)
qed

text \<open>
  The one-tile set used below is well formed and leaves cells of the 2 x 2 grid empty, and 0 is a
  value that \<^verbatim>\<open>Math.random()\<close> can return: it is an input of the kind the statement about the
  spawner speaks of.
\<close>

lemma restored_tile_set_admissible:
  "wellformed [mk 7 0 0 2] 2 \<and> \<not> full [mk 7 0 0 2] 2 \<and> (0::real) \<le> 0 \<and> (0::real) < 1"
proof -
  have h1: "wellformed [mk 7 0 0 2] 2" by (simp add: wellformed_def in_bounds_def mk_def)
  have h2: "\<not> full [mk 7 0 0 2] 2" by (auto simp: full_def mk_def upt_rec numeral_2_eq_2)
  from h1 h2 show ?thesis by simp
qed

text \<open>
  Claim C6.  The claim says that on every well-formed tile set with an empty cell \<^verbatim>\<open>spawn\<close> adds
  one tile with a fresh identity.  The code misses the freshness.  \<^verbatim>\<open>spawn\<close> takes the identity
  from \<^verbatim>\<open>uid()\<close>, a counter that starts again at 1 each time the page is loaded, while the load
  effect puts the saved tiles back with the identities they had; \<^verbatim>\<open>spawn\<close> never looks at the
  identities of its input.  So the counter comes to a value that a restored tile carries.  On the
  well-formed one-tile set \<open>[{id: 7, r: 0, c: 0, value: 2}]\<close> of a 2 x 2 grid, with the counter at 7
  and both draws of \<^verbatim>\<open>Math.random()\<close> equal to 0, \<^verbatim>\<open>spawn\<close> appends a tile on the empty cell (0, 1)
  whose identity is 7 again: the returned tile set holds two tiles with the same identity.
\<close>

theorem spawn_reuses_identity:
  "wellformed [mk 7 0 0 2] 2
   \<and> last_at [mk 7 0 0 2] 0 1 = None
   \<and> spawn [mk 7 0 0 2] 2 (9 / 10) 0 0 7 = Inr ([mk 7 0 0 2, mk 7 0 1 2], 8)
   \<and> t_id (mk 7 0 1 2) = t_id (mk 7 0 0 2)
   \<and> \<not> distinct (map t_id [mk 7 0 0 2, mk 7 0 1 2])"
proof -
  have h1: "wellformed [mk 7 0 0 2] 2" by (simp add: wellformed_def in_bounds_def mk_def)
  have h2: "last_at [mk 7 0 0 2] 0 1 = None" by (simp add: last_at_def mk_def)
  have h3: "spawn [mk 7 0 0 2] 2 (9 / 10) 0 0 7 = Inr ([mk 7 0 0 2, mk 7 0 1 2], 8)"
    by (simp add: spawn_def toBoard_def empty_board_def place_def store_def mk_def
        free_cells_def rnd_def upt_rec numeral_2_eq_2)
  have h4: "t_id (mk 7 0 1 2) = t_id (mk 7 0 0 2)" by (simp add: mk_def)
  have h5: "\<not> distinct (map t_id [mk 7 0 0 2, mk 7 0 1 2])" by (simp add: mk_def)
  from h1 h2 h3 h4 h5 show ?thesis by blast
qed

lemma move_Inl: "toBoard tiles n = Inl e \<Longrightarrow> move tiles n dir = Inl e"
  by (simp add: move_def move_grid_def cloneTiles_def)

lemma move_Inr: "toBoard tiles n = Inr b \<Longrightarrow> \<exists>res. move tiles n dir = Inr res"
  by (simp add: move_def move_grid_def cloneTiles_def split: prod.splits)

lemma spawn_Inl: "toBoard tiles n = Inl e \<Longrightarrow> spawn tiles n bias u1 u2 ctr = Inl e"
  by (simp add: spawn_def)

lemma spawn_Inr: "toBoard tiles n = Inr b \<Longrightarrow> \<exists>res. spawn tiles n bias u1 u2 ctr = Inr res"
  by (simp add: spawn_def Let_def)

text \<open>
  Claim C8, as the code has it.  No operation checks the board invariant.  \<^verbatim>\<open>toBoard\<close>, and
  with it \<^verbatim>\<open>move\<close> and \<^verbatim>\<open>spawn\<close>, fails exactly when some tile lies in no row of the grid,
  and then with the \<^verbatim>\<open>TypeError\<close> of the failed assignment; every other tile set, also one
  with two tiles on a cell or with a column outside the grid, is processed to a normal result.
\<close>

theorem only_bad_rows_fail:
  "(rows_ok tiles n \<longrightarrow>
      (\<exists>b. toBoard tiles n = Inr b) \<and> (\<exists>res. move tiles n dir = Inr res)
        \<and> (\<exists>res. spawn tiles n bias u1 u2 ctr = Inr res))
   \<and> (\<not> rows_ok tiles n \<longrightarrow>
      toBoard tiles n = Inl TypeError \<and> move tiles n dir = Inl TypeError
        \<and> spawn tiles n bias u1 u2 ctr = Inl TypeError)"
proof (cases "rows_ok tiles n")
  case True
  from toBoard_cells [OF True] obtain b where "toBoard tiles n = Inr b" by blast
  with True show ?thesis using move_Inr spawn_Inr by blast
next
  case False
  from toBoard_fail [OF False] False show ?thesis
    by (simp add: move_Inl spawn_Inl)
qed

theorem only_bad_rows_fail_witness:
  "rows_ok [mk 1 0 0 2, mk 2 0 0 4] 2
   \<and> (\<exists>res. move [mk 1 0 0 2, mk 2 0 0 4] 2 L = Inr res)
   \<and> \<not> rows_ok [mk 1 2 0 2] 2
   \<and> move [mk 1 2 0 2] 2 L = Inl TypeError"
proof -
  have h1: "rows_ok [mk 1 0 0 2, mk 2 0 0 4] 2" by (simp add: rows_ok_def mk_def)
  have h2: "\<not> rows_ok [mk 1 2 0 2] 2" by (simp add: rows_ok_def mk_def)
  from h1 only_bad_rows_fail [of "[mk 1 0 0 2, mk 2 0 0 4]" 2 L "9 / 10" "1 / 2" "1 / 2" 1]
  have a: "\<exists>res. move [mk 1 0 0 2, mk 2 0 0 4] 2 L = Inr res" by blast
  from h2 only_bad_rows_fail [of "[mk 1 2 0 2]" 2 L "9 / 10" "1 / 2" "1 / 2" 1]
  have b: "move [mk 1 2 0 2] 2 L = Inl TypeError" by blast
  from h1 h2 a b show ?thesis by blast
qed

text \<open>
  Claim C8 as stated fails.  Two tiles on the cell \<open>(0, 0)\<close> violate the invariant, yet \<^verbatim>\<open>move\<close>
  returns a result, from which the first tile has disappeared; \<^verbatim>\<open>spawn\<close> returns normally
  too.  A tile in column 3 of a \<open>2 \<times> 2\<close> grid is dropped by \<^verbatim>\<open>move\<close> in the same silent way.
\<close>

theorem invalid_board_silently_accepted:
  "\<not> wellformed [mk 1 0 0 2, mk 2 0 0 4] 2
   \<and> move [mk 1 0 0 2, mk 2 0 0 4] 2 L
       = Inr \<lparr>mv_tiles = [mk 2 0 0 4], mv_moved = False, mv_gained = 0\<rparr>
   \<and> spawn [mk 1 0 0 2, mk 2 0 0 4] 2 (9 / 10) 0 0 3
       = Inr ([mk 1 0 0 2, mk 2 0 0 4, mk 3 0 1 2], 4)
   \<and> \<not> wellformed [mk 1 0 3 2] 2
   \<and> move [mk 1 0 3 2] 2 R = Inr \<lparr>mv_tiles = [], mv_moved = False, mv_gained = 0\<rparr>"
proof -
  have "\<not> wellformed [mk 1 0 0 2, mk 2 0 0 4] 2
     \<and> move [mk 1 0 0 2, mk 2 0 0 4] 2 L
         = Inr \<lparr>mv_tiles = [mk 2 0 0 4], mv_moved = False, mv_gained = 0\<rparr>
     \<and> \<not> wellformed [mk 1 0 3 2] 2
     \<and> move [mk 1 0 3 2] 2 R = Inr \<lparr>mv_tiles = [], mv_moved = False, mv_gained = 0\<rparr>"
    by code_simp
  moreover have "spawn [mk 1 0 0 2, mk 2 0 0 4] 2 (9 / 10) 0 0 3
       = Inr ([mk 1 0 0 2, mk 2 0 0 4, mk 3 0 1 2], 4)"
    by (simp add: spawn_def toBoard_def empty_board_def place_def store_def mk_def free_cells_def
        rnd_def upt_rec numeral_2_eq_2)
  ultimately show ?thesis by blast
qed

section \<open>Terminal detection\<close>

lemma scan_cells_iff:
  "scan_cells board n ps \<longleftrightarrow> (\<exists>(r, c)\<in>set ps. move_at board n r c)"
  by (induction board n ps rule: scan_cells.induct) auto

lemma anyMovesLeft_iff:
  "anyMovesLeft board \<longleftrightarrow> (\<exists>r<length board. \<exists>c<length board. move_at board (length board) r c)"
  by (simp add: anyMovesLeft_def Let_def scan_cells_iff Bex_def)

lemma square_nth: "square n b \<Longrightarrow> r < n \<Longrightarrow> length (b ! r) = n"
  by (auto simp: square_def list_all_length)

lemma move_at_square:
  assumes "square n b" "r < n" "c < n"
  shows "move_at b n r c \<longleftrightarrow>
           (\<not> occupied b r c
            \<or> (r + 1 < n \<and> equal_cells b r c (r + 1) c)
            \<or> (c + 1 < n \<and> equal_cells b r c r (c + 1)))"
proof -
  have l: "length (b ! r) = n" using assms square_nth by blast
  have l1: "r + 1 < n \<Longrightarrow> length (b ! (r + 1)) = n" using assms square_nth by blast
  show ?thesis
    using assms(2,3) l l1
    by (cases "b ! r ! c"; cases "b ! (r + 1) ! c"; cases "b ! r ! (c + 1)")
       (auto simp: move_at_def Let_def cell_at_def occupied_def equal_cells_def same_value_def)
qed

text \<open>
  Claim C5.  On an \<open>n \<times> n\<close> board view, \<^verbatim>\<open>anyMovesLeft\<close> returns \<^verbatim>\<open>false\<close> exactly when every
  cell holds a tile and no two horizontally or vertically adjacent cells hold equal values.
\<close>

theorem anyMovesLeft_false_iff:
  assumes "square (length b) b"
  shows "\<not> anyMovesLeft b \<longleftrightarrow> stuck b"
proof -
  let ?n = "length b"
  have "\<not> anyMovesLeft b \<longleftrightarrow> (\<forall>r<?n. \<forall>c<?n. \<not> move_at b ?n r c)"
    by (auto simp: anyMovesLeft_iff)
  also have "\<dots> \<longleftrightarrow> (\<forall>r<?n. \<forall>c<?n. occupied b r c
       \<and> \<not> (r + 1 < ?n \<and> equal_cells b r c (r + 1) c)
       \<and> \<not> (c + 1 < ?n \<and> equal_cells b r c r (c + 1)))"
    using move_at_square [OF assms] by simp
  also have "\<dots> \<longleftrightarrow> stuck b"
  proof -
    have "stuck b \<longleftrightarrow> ((\<forall>r<?n. \<forall>c<?n. occupied b r c)
      \<and> (\<forall>r<?n. \<forall>c<?n. c + 1 < ?n \<longrightarrow> \<not> equal_cells b r c r (c + 1))
      \<and> (\<forall>r<?n. \<forall>c<?n. r + 1 < ?n \<longrightarrow> \<not> equal_cells b r c (r + 1) c))"
      by (simp add: stuck_def Let_def Ball_def) blast
    then show ?thesis by blast
  qed
  finally show ?thesis .
qed

theorem anyMovesLeft_false_iff_witness:
  "square (length [[Obj (mk 1 0 0 2), Obj (mk 2 0 1 4)], [Obj (mk 3 1 0 4), Obj (mk 4 1 1 2)]])
     [[Obj (mk 1 0 0 2), Obj (mk 2 0 1 4)], [Obj (mk 3 1 0 4), Obj (mk 4 1 1 2)]]
   \<and> stuck [[Obj (mk 1 0 0 2), Obj (mk 2 0 1 4)], [Obj (mk 3 1 0 4), Obj (mk 4 1 1 2)]]
   \<and> \<not> anyMovesLeft [[Obj (mk 1 0 0 2), Obj (mk 2 0 1 4)], [Obj (mk 3 1 0 4), Obj (mk 4 1 1 2)]]"
proof -
  let ?b = "[[Obj (mk 1 0 0 2), Obj (mk 2 0 1 4)], [Obj (mk 3 1 0 4), Obj (mk 4 1 1 2)]]"
  have h: "square (length ?b) ?b" by (simp add: square_def)
  have st: "stuck ?b"
    by code_simp
  from h st anyMovesLeft_false_iff [OF h] show ?thesis by blast
qed


section \<open>Properties of the line reducer\<close>

lemma scan_bound: "ni < length line \<Longrightarrow> scan line lk v d ni < length line"
proof (induction line lk v d ni rule: scan.induct)
  case (1 line lk v d ni)
  show ?case
  proof (cases d)
    case Neg
    with 1 show ?thesis by (subst scan.simps) (auto split: if_splits)
  next
    case Pos
    with 1 show ?thesis by (subst scan.simps) (auto split: if_splits)
  qed
qed

lemma scan_ahead: "scan line lk v d ni = ni \<or> ahead d (scan line lk v d ni) ni"
proof (induction line lk v d ni rule: scan.induct)
  case (1 line lk v d ni)
  show ?case
  proof (cases d)
    case Neg
    with 1 show ?thesis by (subst (1 2) scan.simps) (auto split: if_splits)
  next
    case Pos
    with 1 show ?thesis by (subst (1 2) scan.simps) (auto split: if_splits)
  qed
qed

lemma scan_target:
  "scan line lk v d ni = ni \<or> line ! scan line lk v d ni = Null
   \<or> (scan line lk v d ni \<notin> lk \<and> (\<exists>u. line ! scan line lk v d ni = Obj u \<and> t_value u = v))"
proof (induction line lk v d ni rule: scan.induct)
  case (1 line lk v d ni)
  let ?j = "nat (int ni + delta d)"
  show ?case
  proof (cases "int ni + delta d < 0 \<or> int (length line) \<le> int ni + delta d")
    case True
    then show ?thesis by (subst (1) scan.simps) simp
  next
    case out: False
    show ?thesis
    proof (cases "line ! ?j = Null")
      case True
      with out have eq: "scan line lk v d ni = scan line lk v d ?j"
        by (subst scan.simps) simp
      from 1 [OF out True] show ?thesis
      proof (elim disjE)
        assume "scan line lk v d ?j = ?j"
        with True eq show ?thesis by simp
      qed (simp_all add: eq)
    next
      case False
      with out show ?thesis
        by (subst (1 2 3 4) scan.simps) (auto split: cell.splits)
    qed
  qed
qed

lemma sl_step_cases [consumes 1, case_names skip stay slide merge]:
  assumes "i < length (sl_line s)"
  obtains
    "\<forall>t. sl_line s ! i \<noteq> Obj t" "sl_step d s i = s" "sl_event d s i = Skip i"
  | t where "sl_line s ! i = Obj t" "scan (sl_line s) (sl_locked s) (t_value t) d i = i"
      "sl_step d s i = s" "sl_event d s i = Stay i"
  | t ni where "sl_line s ! i = Obj t"
      "ni \<noteq> i" "ahead d ni i" "ni < length (sl_line s)" "sl_line s ! ni = Null"
      "sl_step d s i = s\<lparr>sl_line := (sl_line s)[ni := Obj t, i := Null], sl_moved := True\<rparr>"
      "sl_event d s i = Slide i ni"
  | t u ni where "sl_line s ! i = Obj t"
      "ni \<noteq> i" "ahead d ni i" "ni < length (sl_line s)" "sl_line s ! ni = Obj u"
      "t_value u = t_value t" "ni \<notin> sl_locked s"
      "sl_step d s i =
         s\<lparr>sl_line := (sl_line s)[ni := Obj (u\<lparr>t_value := t_value u * 2, t_bump := True\<rparr>), i := Null],
           sl_locked := insert ni (sl_locked s), sl_moved := True,
           sl_gained := sl_gained s + t_value u * 2\<rparr>"
      "sl_event d s i = Merge i ni"
proof (cases "sl_line s ! i")
  case Undefined
  then show ?thesis using that(1) by (simp add: sl_step_def sl_event_def)
next
  case Null
  then show ?thesis using that(1) by (simp add: sl_step_def sl_event_def)
next
  case (Obj t)
  define ni where "ni = scan (sl_line s) (sl_locked s) (t_value t) d i"
  have bound: "ni < length (sl_line s)" unfolding ni_def using assms by (rule scan_bound)
  show ?thesis
  proof (cases "ni = i")
    case True
    with Obj show ?thesis using that(2) [of t]
      by (simp add: sl_step_def sl_event_def ni_def [symmetric])
  next
    case False
    with scan_ahead [of "sl_line s" "sl_locked s" "t_value t" d i]
    have ah: "ahead d ni i" by (simp add: ni_def)
    show ?thesis
    proof (cases "mergeable s t ni")
      case True
      then obtain u where u: "sl_line s ! ni = Obj u" "t_value u = t_value t" "ni \<notin> sl_locked s"
        by (auto simp: mergeable_def split: cell.splits)
      show ?thesis
        using that(4) [of t ni u] Obj False ah bound u True
        by (simp add: sl_step_def sl_event_def ni_def [symmetric] do_merge_def)
    next
      case nm: False
      from scan_target [of "sl_line s" "sl_locked s" "t_value t" d i] False nm
      have "sl_line s ! ni = Null"
        by (auto simp: ni_def [symmetric] mergeable_def)
      then show ?thesis
        using that(3) [of t ni] Obj False ah bound nm
        by (simp add: sl_step_def sl_event_def ni_def [symmetric] do_slide_def)
    qed
  qed
qed

lemma mset_tiles_of: "mset (tiles_of xs) = sum_list (map cell_ms xs)"
  by (induction xs rule: tiles_of.induct) auto

lemma sum_list_map_update:
  fixes f :: "'a \<Rightarrow> 'b::comm_monoid_add"
  shows "i < length xs \<Longrightarrow> sum_list (map f (xs[i := x])) + f (xs ! i) = sum_list (map f xs) + f x"
proof (induction xs arbitrary: i)
  case Nil
  then show ?case by simp
next
  case (Cons y ys)
  show ?case
  proof (cases i)
    case 0
    then show ?thesis by (simp add: ac_simps)
  next
    case (Suc k)
    with Cons.prems have "k < length ys" by simp
    from Cons.IH [OF this] Suc show ?thesis
      by (simp add: ac_simps)
  qed
qed

lemma mset_tiles_of_update:
  "i < length xs \<Longrightarrow> mset (tiles_of (xs[i := x])) + cell_ms (xs ! i) = mset (tiles_of xs) + cell_ms x"
  unfolding mset_tiles_of by (rule sum_list_map_update)

lemma accounted_refl: "accounted A A 0"
  unfolding accounted_def by (rule exI [of _ "[]"]) simp

lemma accounted_trans:
  assumes "accounted A B g" "accounted B C h"
  shows "accounted A C (g + h)"
proof -
  from assms obtain ms ns where
    1: "A + mset (map (\<lambda>v. v * 2) ms) = B + mset ms + mset ms" "g = sum_list (map (\<lambda>v. v * 2) ms)"
    and 2: "B + mset (map (\<lambda>v. v * 2) ns) = C + mset ns + mset ns" "h = sum_list (map (\<lambda>v. v * 2) ns)"
    unfolding accounted_def by blast
  have "A + mset (map (\<lambda>v. v * 2) (ms @ ns))
      = (A + mset (map (\<lambda>v. v * 2) ms)) + mset (map (\<lambda>v. v * 2) ns)"
    by simp
  also have "\<dots> = (B + mset (map (\<lambda>v. v * 2) ns)) + mset ms + mset ms"
    by (simp only: 1(1)) (simp add: ac_simps)
  also have "\<dots> = C + mset (ms @ ns) + mset (ms @ ns)"
    by (simp only: 2(1)) (simp add: ac_simps)
  finally show ?thesis
    unfolding accounted_def using 1(2) 2(2) by (intro exI [of _ "ms @ ns"]) simp
qed

lemma accounted_sum:
  assumes "accounted A B g"
  shows "sum_mset A = sum_mset B"
proof -
  from assms obtain ms where
    1: "A + mset (map (\<lambda>v. v * 2) ms) = B + mset ms + mset ms"
    unfolding accounted_def by blast
  have "sum_mset (mset (map (\<lambda>v. v * 2) ms)) = sum_mset (mset ms) + sum_mset (mset ms)"
    by (induction ms) auto
  moreover from 1 have "sum_mset (A + mset (map (\<lambda>v. v * 2) ms)) = sum_mset (B + mset ms + mset ms)"
    by simp
  ultimately show ?thesis by simp
qed

lemma sl_step_length:
  "i < length (sl_line s) \<Longrightarrow> length (sl_line (sl_step d s i)) = length (sl_line s)"
  by (cases rule: sl_step_cases [where d = d]) auto

lemma sl_foldl_inv:
  assumes "\<forall>i\<in>set js. i < n" "length (sl_line s) = n" "P s"
    and "\<And>s i. length (sl_line s) = n \<Longrightarrow> P s \<Longrightarrow> i < n \<Longrightarrow> P (sl_step d s i)"
  shows "P (foldl (sl_step d) s js) \<and> length (sl_line (foldl (sl_step d) s js)) = n"
  using assms(1-3)
proof (induction js arbitrary: s)
  case Nil
  then show ?case by simp
next
  case (Cons j js)
  then have "j < n" by simp
  with Cons.prems assms(4) have "P (sl_step d s j)" and "length (sl_line (sl_step d s j)) = n"
    by (simp_all add: sl_step_length)
  with Cons.IH [of "sl_step d s j"] Cons.prems(1) show ?case by simp
qed

lemma order_bound: "\<forall>i\<in>set (order n d). i < n"
  by (simp add: order_def)

lemma slideLine_inv:
  assumes "P (sl_init line)"
    and "\<And>s i. length (sl_line s) = length line \<Longrightarrow> P s \<Longrightarrow> i < length line \<Longrightarrow> P (sl_step d s i)"
  shows "P (slideLine line d) \<and> length (sl_line (slideLine line d)) = length line"
  unfolding slideLine_def
proof (rule sl_foldl_inv [where P = P and n = "length line"])
  show "\<forall>i\<in>set (order (length line) d). i < length line" by (rule order_bound)
  show "length (sl_line (sl_init line)) = length line" by (simp add: sl_init_def)
  show "P (sl_init line)" by (rule assms(1))
  show "P (sl_step d s i)" if "length (sl_line s) = length line" "P s" "i < length line" for s i
    using that by (rule assms(2))
qed

lemma accounted_step:
  "B + {#v, v#} = A + {#v * 2#} \<Longrightarrow> accounted A B (v * 2)"
  unfolding accounted_def by (rule exI [of _ "[v]"]) (simp add: ac_simps)

lemma slide_tiles:
  assumes "i < length l" "ni < length l" "ni \<noteq> i" "l ! i = Obj t" "l ! ni = Null"
  shows "mset (tiles_of (l[ni := Obj t, i := Null])) = mset (tiles_of l)"
proof -
  from mset_tiles_of_update [of ni l "Obj t"] assms
  have 1: "mset (tiles_of (l[ni := Obj t])) = mset (tiles_of l) + {#t#}" by simp
  from mset_tiles_of_update [of i "l[ni := Obj t]" Null] assms
  have "mset (tiles_of (l[ni := Obj t, i := Null])) + {#t#} = mset (tiles_of (l[ni := Obj t]))"
    by simp
  with 1 show ?thesis by simp
qed

lemma merge_tiles:
  assumes "i < length l" "ni < length l" "ni \<noteq> i" "l ! i = Obj t" "l ! ni = Obj u"
  shows "mset (tiles_of (l[ni := Obj u', i := Null])) + {#t, u#} = mset (tiles_of l) + {#u'#}"
proof -
  from mset_tiles_of_update [of ni l "Obj u'"] assms
  have 1: "mset (tiles_of (l[ni := Obj u'])) + {#u#} = mset (tiles_of l) + {#u'#}" by simp
  from mset_tiles_of_update [of i "l[ni := Obj u']" Null] assms
  have "mset (tiles_of (l[ni := Obj u', i := Null])) + {#t#} = mset (tiles_of (l[ni := Obj u']))"
    by simp
  with 1 show ?thesis by (simp add: ac_simps) (metis add_mset_commute)
qed

lemma sl_step_accounted:
  assumes "i < length (sl_line s)"
  shows "accounted (values_of (tiles_of (sl_line s)))
           (values_of (tiles_of (sl_line (sl_step d s i))))
           (sl_gained (sl_step d s i) - sl_gained s)"
  using assms
proof (cases rule: sl_step_cases [where d = d])
  case skip
  then show ?thesis by (simp add: accounted_refl)
next
  case (stay t)
  then show ?thesis by (simp add: accounted_refl)
next
  case (slide t ni)
  with assms have "mset (tiles_of (sl_line (sl_step d s i))) = mset (tiles_of (sl_line s))"
    by (simp add: slide_tiles)
  with slide show ?thesis by (simp add: values_of_def accounted_refl)
next
  case (merge t u ni)
  let ?u' = "u\<lparr>t_value := t_value u * 2, t_bump := True\<rparr>"
  have eq: "sl_line (sl_step d s i) = (sl_line s)[ni := Obj ?u', i := Null]"
    using merge by simp
  have "mset (tiles_of (sl_line (sl_step d s i))) + {#t, u#} = mset (tiles_of (sl_line s)) + {#?u'#}"
    unfolding eq using assms merge(1-5) by (intro merge_tiles) simp_all
  then have "image_mset t_value (mset (tiles_of (sl_line (sl_step d s i))) + {#t, u#})
      = image_mset t_value (mset (tiles_of (sl_line s)) + {#?u'#})"
    by simp
  with merge(6) have "values_of (tiles_of (sl_line (sl_step d s i))) + {#t_value u, t_value u#}
      = values_of (tiles_of (sl_line s)) + {#t_value u * 2#}"
    by (simp add: values_of_def)
  from accounted_step [OF this] merge(8) show ?thesis by simp
qed

lemma slideLine_accounted:
  "accounted (values_of (tiles_of line)) (values_of (tiles_of (sl_line (slideLine line d))))
     (sl_gained (slideLine line d))"
proof -
  let ?P = "\<lambda>s. accounted (values_of (tiles_of line)) (values_of (tiles_of (sl_line s))) (sl_gained s)"
  have "?P (slideLine line d) \<and> length (sl_line (slideLine line d)) = length line"
  proof (rule slideLine_inv)
    show "?P (sl_init line)" by (simp add: sl_init_def accounted_refl)
    show "?P (sl_step d s i)" if "length (sl_line s) = length line" "?P s" "i < length line" for s i
    proof -
      from that have "i < length (sl_line s)" by simp
      from accounted_trans [OF that(2) sl_step_accounted [OF this, of d]] show ?thesis by simp
    qed
  qed
  then show ?thesis by simp
qed

lemma slideLine_length: "length (sl_line (slideLine line d)) = length line"
  using slideLine_inv [of "\<lambda>s. True" line d] by simp

lemma sl_step_unmoved:
  assumes "i < length (sl_line s)" "\<not> sl_moved (sl_step d s i)"
  shows "sl_step d s i = s"
  using assms by (cases rule: sl_step_cases [where d = d]) auto

lemma slideLine_unmoved_inv:
  "(\<not> sl_moved (slideLine line d) \<longrightarrow> slideLine line d = sl_init line)
   \<and> length (sl_line (slideLine line d)) = length line"
proof (rule slideLine_inv)
  show "\<not> sl_moved (sl_init line) \<longrightarrow> sl_init line = sl_init line" by simp
  show "\<not> sl_moved (sl_step d s i) \<longrightarrow> sl_step d s i = sl_init line"
    if "length (sl_line s) = length line" "\<not> sl_moved s \<longrightarrow> s = sl_init line" "i < length line" for s i
  proof
    assume nm: "\<not> sl_moved (sl_step d s i)"
    from that have i: "i < length (sl_line s)" by simp
    from sl_step_unmoved [OF i nm] have eq: "sl_step d s i = s" .
    with nm have "\<not> sl_moved s" by simp
    with that(2) eq show "sl_step d s i = sl_init line" by simp
  qed
qed

lemma slideLine_unmoved:
  "\<not> sl_moved (slideLine line d) \<Longrightarrow> sl_line (slideLine line d) = line \<and> sl_gained (slideLine line d) = 0"
  using slideLine_unmoved_inv [of line d] by (simp add: sl_init_def)

lemma foldl_trace_moved:
  "\<forall>i\<in>set js. i < length (sl_line s) \<Longrightarrow>
   sl_moved (foldl (sl_step d) s js) \<longleftrightarrow> sl_moved s \<or> (\<exists>e\<in>set (sl_trace d s js). changes e)"
proof (induction js arbitrary: s)
  case Nil
  then show ?case by simp
next
  case (Cons j js)
  then have j: "j < length (sl_line s)" by simp
  with Cons.prems have "\<forall>i\<in>set js. i < length (sl_line (sl_step d s j))"
    by (simp add: sl_step_length)
  from Cons.IH [OF this]
  have IH: "sl_moved (foldl (sl_step d) (sl_step d s j) js) \<longleftrightarrow>
      sl_moved (sl_step d s j) \<or> (\<exists>e\<in>set (sl_trace d (sl_step d s j) js). changes e)" .
  from j have "sl_moved (sl_step d s j) \<longleftrightarrow> sl_moved s \<or> changes (sl_event d s j)"
    by (cases rule: sl_step_cases [where d = d]) auto
  with IH show ?case by auto
qed

lemma trace_changes: "sl_moved (slideLine line d) \<longleftrightarrow> (\<exists>e\<in>set (trace line d). changes e)"
  unfolding slideLine_def trace_def
  using foldl_trace_moved [of "order (length line) d" "sl_init line" d] order_bound [of "length line" d]
  by (simp add: sl_init_def)

lemma slideLine_no_tiles:
  assumes "\<forall>x\<in>set line. \<not> truthy x"
  shows "slideLine line d = sl_init line"
proof -
  have "slideLine line d = sl_init line \<and> length (sl_line (slideLine line d)) = length line"
  proof (rule slideLine_inv [where P = "\<lambda>s. s = sl_init line"])
    show "sl_init line = sl_init line" ..
    show "sl_step d s i = sl_init line" if "s = sl_init line" "i < length line" for s i
    proof -
      from that(2) assms have "\<not> truthy (line ! i)" by simp
      then have "\<forall>t. line ! i \<noteq> Obj t" by auto
      with that show ?thesis by (auto simp: sl_step_def sl_init_def split: cell.splits)
    qed
  qed
  then show ?thesis ..
qed

lemma same_value_sym: "same_value x y = same_value y x"
  by (cases x; cases y) (auto simp: same_value_def)

lemma packed_adjacent:
  "packed line \<Longrightarrow> k + 1 < length line \<Longrightarrow> \<not> same_value (line ! k) (line ! (k + 1))"
  by (simp add: packed_def)

lemma scan_packed:
  assumes "packed line" "i < length line" "line ! i = Obj t"
  shows "scan line lk (t_value t) d i = i"
proof (cases "int i + delta d < 0 \<or> int (length line) \<le> int i + delta d")
  case True
  then show ?thesis by (subst scan.simps) simp
next
  case False
  let ?j = "nat (int i + delta d)"
  from False have j: "?j < length line" by auto
  with assms(1) have "truthy (line ! ?j)" by (simp add: packed_def)
  then obtain u where u: "line ! ?j = Obj u" by (cases "line ! ?j") auto
  have "\<not> same_value (line ! ?j) (line ! i)"
  proof (cases d)
    case Neg
    with False obtain k where k: "i = k + 1" "?j = k" by (cases i) auto
    from packed_adjacent [OF assms(1), of k] assms(2) k show ?thesis by simp
  next
    case Pos
    with False have k: "?j = i + 1" "i + 1 < length line" by auto
    from packed_adjacent [OF assms(1) k(2)] k(1) show ?thesis by (simp add: same_value_sym)
  qed
  with u assms(3) have "t_value u \<noteq> t_value t" by (simp add: same_value_def)
  with False u show ?thesis by (subst scan.simps) simp
qed

lemma slideLine_packed:
  assumes "packed line"
  shows "slideLine line d = sl_init line"
proof -
  have "slideLine line d = sl_init line \<and> length (sl_line (slideLine line d)) = length line"
  proof (rule slideLine_inv [where P = "\<lambda>s. s = sl_init line"])
    show "sl_init line = sl_init line" ..
    show "sl_step d s i = sl_init line" if "s = sl_init line" "i < length line" for s i
    proof -
      from that(2) assms have "truthy (line ! i)" by (simp add: packed_def)
      then obtain t where t: "line ! i = Obj t" by (cases "line ! i") auto
      from scan_packed [OF assms that(2) t] t that(1) show ?thesis
        by (simp add: sl_step_def sl_init_def)
    qed
  qed
  then show ?thesis ..
qed

lemma rank_ahead: "ahead d a b \<Longrightarrow> a < n \<Longrightarrow> b < n \<Longrightarrow> rank d n a < rank d n b"
  by (cases d) auto

lemma weight_step:
  assumes i: "i < length l" and ni: "ni < length l" and ne: "ni \<noteq> i"
    and ti: "truthy (l ! i)" and tx: "truthy x" and ah: "ahead d ni i"
  shows "weight d (l[ni := x, i := Null]) < weight d l"
proof -
  let ?n = "length l"
  let ?l' = "l[ni := x, i := Null]"
  let ?f = "\<lambda>k. if truthy (l ! k) then rank d ?n k else 0"
  let ?f' = "\<lambda>k. if truthy (?l' ! k) then rank d ?n k else 0"
  let ?R = "{..<?n} - {i} - {ni}"
  have split: "sum g {..<?n} = g i + (g ni + sum g ?R)" for g :: "nat \<Rightarrow> nat"
  proof -
    have "sum g {..<?n} = g i + sum g ({..<?n} - {i})"
      using i by (intro sum.remove) simp_all
    also have "sum g ({..<?n} - {i}) = g ni + sum g ?R"
      using ni ne by (intro sum.remove) simp_all
    finally show ?thesis .
  qed
  have rest: "sum ?f' ?R = sum ?f ?R"
    by (intro sum.cong) auto
  have fi: "?f' i = 0" using i by simp
  have fni: "?f' ni = rank d ?n ni" using ni ne tx by simp
  have fi0: "?f i = rank d ?n i" using ti by simp
  have "weight d ?l' = sum ?f' {..<?n}" by (simp add: weight_def cong: if_cong)
  also have "\<dots> = ?f' i + (?f' ni + sum ?f' ?R)" by (rule split)
  also have "\<dots> = 0 + (rank d ?n ni + sum ?f ?R)" by (simp only: fi fni rest)
  also have "\<dots> < rank d ?n i + (?f ni + sum ?f ?R)"
    using rank_ahead [OF ah ni i] by simp
  also have "\<dots> = ?f i + (?f ni + sum ?f ?R)" by (simp only: fi0)
  also have "\<dots> = sum ?f {..<?n}" by (rule split [symmetric])
  also have "\<dots> = weight d l" by (simp add: weight_def)
  finally show ?thesis .
qed

lemma sl_step_weight:
  assumes "i < length (sl_line s)"
  shows "weight d (sl_line (sl_step d s i)) \<le> weight d (sl_line s)
     \<and> (sl_moved (sl_step d s i) \<and> \<not> sl_moved s \<longrightarrow>
          weight d (sl_line (sl_step d s i)) < weight d (sl_line s))"
  using assms
proof (cases rule: sl_step_cases [where d = d])
  case skip
  then show ?thesis by simp
next
  case (stay t)
  then show ?thesis by simp
next
  case (slide t ni)
  from weight_step [OF assms slide(4) slide(2) _ _ slide(3), of "Obj t"] slide(1)
  have "weight d ((sl_line s)[ni := Obj t, i := Null]) < weight d (sl_line s)" by simp
  with slide(6) show ?thesis by simp
next
  case (merge t u ni)
  let ?u' = "u\<lparr>t_value := t_value u * 2, t_bump := True\<rparr>"
  from weight_step [OF assms merge(4) merge(2) _ _ merge(3), of "Obj ?u'"] merge(1)
  have "weight d ((sl_line s)[ni := Obj ?u', i := Null]) < weight d (sl_line s)" by simp
  with merge(8) show ?thesis by simp
qed

lemma slideLine_weight:
  "sl_moved (slideLine line d) \<Longrightarrow> weight d (sl_line (slideLine line d)) < weight d line"
proof -
  let ?P = "\<lambda>s. weight d (sl_line s) \<le> weight d line
      \<and> (sl_moved s \<longrightarrow> weight d (sl_line s) < weight d line)"
  have "?P (slideLine line d) \<and> length (sl_line (slideLine line d)) = length line"
  proof (rule slideLine_inv)
    show "?P (sl_init line)" by (simp add: sl_init_def)
    show "?P (sl_step d s i)" if "length (sl_line s) = length line" "?P s" "i < length line" for s i
    proof -
      from that have "i < length (sl_line s)" by simp
      from sl_step_weight [OF this, of d] that(2) show ?thesis by force
    qed
  qed
  then show "sl_moved (slideLine line d) \<Longrightarrow> weight d (sl_line (slideLine line d)) < weight d line"
    by simp
qed

lemma moved_iff_line_changed: "sl_moved (slideLine line d) \<longleftrightarrow> sl_line (slideLine line d) \<noteq> line"
proof
  assume "sl_moved (slideLine line d)"
  from slideLine_weight [OF this] show "sl_line (slideLine line d) \<noteq> line" by auto
next
  assume "sl_line (slideLine line d) \<noteq> line"
  with slideLine_unmoved [of line d] show "sl_moved (slideLine line d)" by blast
qed

text \<open>
  Claim C9.  \<^verbatim>\<open>slideLine\<close> reports \<^verbatim>\<open>moved = true\<close> exactly when, in some iteration of the
  pass, a tile changed its index or a merge occurred, and that is exactly when the line it
  returns differs from the line it was given.  A line without tiles, and a line without empty
  cells and without two neighbours of equal value, are returned as they are, with
  \<^verbatim>\<open>moved = false\<close> and \<^verbatim>\<open>gained = 0\<close>.
\<close>

theorem moved_iff_changed:
  "(sl_moved (slideLine line d) \<longleftrightarrow> list_ex changes (trace line d))
   \<and> (sl_moved (slideLine line d) \<longleftrightarrow> sl_line (slideLine line d) \<noteq> line)
   \<and> (no_tiles line \<longrightarrow>
        \<not> sl_moved (slideLine line d) \<and> sl_gained (slideLine line d) = 0
        \<and> sl_line (slideLine line d) = line)
   \<and> (packed line \<longrightarrow>
        \<not> sl_moved (slideLine line d) \<and> sl_gained (slideLine line d) = 0
        \<and> sl_line (slideLine line d) = line)"
  using trace_changes [of line d] slideLine_no_tiles [of line d] slideLine_packed [of line d]
    moved_iff_line_changed [of line d]
  by (simp add: sl_init_def no_tiles_def list_all_iff list_ex_iff)

theorem moved_iff_changed_witness:
  "no_tiles [Null, Null, Null]
   \<and> \<not> sl_moved (slideLine [Null, Null, Null] Pos)
   \<and> sl_gained (slideLine [Null, Null, Null] Pos) = 0
   \<and> packed [Obj (mk 1 0 0 2), Obj (mk 2 0 1 4), Obj (mk 3 0 2 2)]
   \<and> \<not> sl_moved (slideLine [Obj (mk 1 0 0 2), Obj (mk 2 0 1 4), Obj (mk 3 0 2 2)] Neg)
   \<and> sl_gained (slideLine [Obj (mk 1 0 0 2), Obj (mk 2 0 1 4), Obj (mk 3 0 2 2)] Neg) = 0
   \<and> list_ex changes (trace [Null, Obj (mk 1 0 1 2)] Neg)
   \<and> sl_moved (slideLine [Null, Obj (mk 1 0 1 2)] Neg)"
proof -
  have h1: "no_tiles [Null, Null, Null]" by (simp add: no_tiles_def)
  have h2: "packed [Obj (mk 1 0 0 2), Obj (mk 2 0 1 4), Obj (mk 3 0 2 2)]"
    by code_simp
  have h3: "list_ex changes (trace [Null, Obj (mk 1 0 1 2)] Neg)"
    by code_simp
  from h1 moved_iff_changed [of "[Null, Null, Null]" Pos]
  have a: "\<not> sl_moved (slideLine [Null, Null, Null] Pos)"
    "sl_gained (slideLine [Null, Null, Null] Pos) = 0" by blast+
  from h2 moved_iff_changed [of "[Obj (mk 1 0 0 2), Obj (mk 2 0 1 4), Obj (mk 3 0 2 2)]" Neg]
  have b: "\<not> sl_moved (slideLine [Obj (mk 1 0 0 2), Obj (mk 2 0 1 4), Obj (mk 3 0 2 2)] Neg)"
    "sl_gained (slideLine [Obj (mk 1 0 0 2), Obj (mk 2 0 1 4), Obj (mk 3 0 2 2)] Neg) = 0" by blast+
  from h3 moved_iff_changed [of "[Null, Obj (mk 1 0 1 2)]" Neg]
  have c: "sl_moved (slideLine [Null, Obj (mk 1 0 1 2)] Neg)" by blast
  from h1 h2 h3 a b c show ?thesis by blast
qed










section \<open>The board mover\<close>

lemma labeled_iff:
  "labeled n b \<longleftrightarrow> (\<forall>r<n. \<forall>c<n. \<forall>t. b ! r ! c = Obj t \<longrightarrow> t_r t = int r \<and> t_c t = int c)"
  unfolding labeled_def by (auto split: cell.splits)

lemma values_of_tiles_of: "values_of (tiles_of line) = line_vals line"
  unfolding values_of_def line_vals_def by (induction line rule: tiles_of.induct) auto

lemma map_nth_upt: "length xs = n \<Longrightarrow> map (\<lambda>i. f (xs ! i)) [0..<n] = map f xs"
  by (rule nth_equalityI) simp_all

lemma tiles_of_nth:
  "tiles_of row = concat (map (\<lambda>c. case row ! c of Obj t \<Rightarrow> [t] | _ \<Rightarrow> []) [0..<length row])"
proof -
  have "tiles_of row = concat (map (\<lambda>x. case x of Obj t \<Rightarrow> [t] | _ \<Rightarrow> []) row)"
    by (induction row rule: tiles_of.induct) auto
  also have "map (\<lambda>x. case x of Obj t \<Rightarrow> [t] | _ \<Rightarrow> []) row
      = map (\<lambda>c. case row ! c of Obj t \<Rightarrow> [t] | _ \<Rightarrow> []) [0..<length row]"
    by (rule map_nth_upt [OF refl, symmetric])
  finally show ?thesis .
qed

lemma square_row: "square n b \<Longrightarrow> r < n \<Longrightarrow> length (b ! r) = n"
  by (auto simp: square_def list_all_length)

lemma square_length: "square n b \<Longrightarrow> length b = n"
  by (simp add: square_def)

lemma collect_square:
  assumes "square n b"
  shows "collect b n = board_tiles b"
proof -
  have row: "concat (map (\<lambda>c. case b ! r ! c of Obj t \<Rightarrow> [t] | _ \<Rightarrow> []) [0..<n]) = tiles_of (b ! r)"
    if "r < n" for r
    using tiles_of_nth [of "b ! r"] square_row [OF assms that] by simp
  have "map (\<lambda>r. concat (map (\<lambda>c. case b ! r ! c of Obj t \<Rightarrow> [t] | _ \<Rightarrow> []) [0..<n])) [0..<n]
      = map (\<lambda>r. tiles_of (b ! r)) [0..<n]"
    using row by simp
  also have "\<dots> = map tiles_of b"
    using square_length [OF assms] by (rule map_nth_upt)
  finally show ?thesis by (simp add: collect_def board_tiles_def)
qed

lemma values_of_board_tiles: "values_of (board_tiles b) = board_vals b"
proof -
  have "values_of (concat (map tiles_of b)) = sum_list (map (\<lambda>row. values_of (tiles_of row)) b)"
    by (induction b) (auto simp: values_of_def)
  then show ?thesis by (simp add: board_tiles_def board_vals_def values_of_tiles_of)
qed

lemma mset_board_tiles_update:
  assumes "r < length b" "c < length (b ! r)"
  shows "mset (board_tiles (b[r := (b ! r)[c := x]])) + cell_ms (b ! r ! c)
       = mset (board_tiles b) + cell_ms x"
proof -
  have bt: "mset (board_tiles b') = sum_list (map (\<lambda>row. mset (tiles_of row)) b')" for b'
    by (induction b') (auto simp: board_tiles_def)
  from sum_list_map_update [OF assms(1), of "\<lambda>row. mset (tiles_of row)" "(b ! r)[c := x]"]
  have "mset (board_tiles (b[r := (b ! r)[c := x]])) + mset (tiles_of (b ! r))
      = mset (board_tiles b) + mset (tiles_of ((b ! r)[c := x]))"
    by (simp add: bt)
  then have "mset (board_tiles (b[r := (b ! r)[c := x]])) + mset (tiles_of (b ! r)) + cell_ms (b ! r ! c)
      = mset (board_tiles b) + (mset (tiles_of ((b ! r)[c := x])) + cell_ms (b ! r ! c))"
    by (simp add: ac_simps)
  also have "\<dots> = mset (board_tiles b) + (mset (tiles_of (b ! r)) + cell_ms x)"
    by (simp only: mset_tiles_of_update [OF assms(2)])
  finally show ?thesis by (simp add: ac_simps)
qed

lemma store_in_range: "0 \<le> c \<Longrightarrow> nat c < length a \<Longrightarrow> store a c x = a[nat c := x]"
  by (simp add: store_def)

lemma square_update:
  assumes "square n b" "length row = n"
  shows "square n (b[r := row])"
  using assms set_update_subset_insert [of b r row] by (auto simp: square_def list_all_iff)

lemma upd_nth:
  assumes "r < length b" "c < length (b ! r)" "r' < length b"
  shows "b[r := (b ! r)[c := x]] ! r' ! c' = (if r' = r \<and> c' = c then x else b ! r' ! c')"
proof (cases "r' = r")
  case True
  with assms show ?thesis by (cases "c' = c") simp_all
next
  case False
  with assms show ?thesis by simp
qed

lemma place_all_wellformed:
  assumes "square n b" "in_bounds ts n" "distinct (map (\<lambda>t. (t_r t, t_c t)) ts)"
    and "\<forall>t\<in>set ts. b ! nat (t_r t) ! nat (t_c t) = Null"
    and "labeled n b"
  shows "\<exists>b'. place_all b ts = Inr b' \<and> square n b' \<and> labeled n b'
           \<and> mset (board_tiles b') = mset (board_tiles b) + mset ts"
  using assms
proof (induction ts arbitrary: b)
  case Nil
  then show ?case by simp
next
  case (Cons t ts)
  let ?r = "nat (t_r t)" and ?c = "nat (t_c t)"
  let ?b1 = "b[?r := (b ! ?r)[?c := Obj t]]"
  from Cons.prems(2) have rc: "0 \<le> t_r t" "t_r t < int n" "0 \<le> t_c t" "t_c t < int n"
    and rest: "in_bounds ts n"
    by (simp_all add: in_bounds_def)
  then have rn: "?r < n" and cn: "?c < n" by simp_all
  from Cons.prems(1) have len: "length b = n" and row: "length (b ! ?r) = n"
    using rn by (simp_all add: square_length square_row)
  from rc len row have p: "place b t = Inr ?b1"
    by (simp add: place_def store_in_range)
  have sq1: "square n ?b1"
    using Cons.prems(1) row by (intro square_update) simp_all
  have cell1: "?b1 ! r' ! c' = (if r' = ?r \<and> c' = ?c then Obj t else b ! r' ! c')" if "r' < n" for r' c'
    using upd_nth [of ?r b ?c r' "Obj t" c'] rn cn len row that by simp
  have lab1: "labeled n ?b1"
    unfolding labeled_iff
  proof (intro allI impI)
    fix r' c' t' assume a: "r' < n" "c' < n" "?b1 ! r' ! c' = Obj t'"
    show "t_r t' = int r' \<and> t_c t' = int c'"
    proof (cases "r' = ?r \<and> c' = ?c")
      case True
      with a cell1 [OF a(1), of c'] have "t' = t" by simp
      with True rc show ?thesis by simp
    next
      case False
      with a cell1 [OF a(1), of c'] have "b ! r' ! c' = Obj t'" by simp
      with Cons.prems(5) a show ?thesis by (simp add: labeled_iff)
    qed
  qed
  have dist: "distinct (map (\<lambda>t. (t_r t, t_c t)) ts)" using Cons.prems(3) by simp
  have free1: "\<forall>t'\<in>set ts. ?b1 ! nat (t_r t') ! nat (t_c t') = Null"
  proof
    fix t' assume t': "t' \<in> set ts"
    then have "(t_r t', t_c t') \<in> (\<lambda>t. (t_r t, t_c t)) ` set ts" by (rule imageI)
    moreover from Cons.prems(3) have "(t_r t, t_c t) \<notin> (\<lambda>t. (t_r t, t_c t)) ` set ts" by simp
    ultimately have ne: "(t_r t', t_c t') \<noteq> (t_r t, t_c t)" by metis
    from t' rest have rc': "0 \<le> t_r t'" "t_r t' < int n" "0 \<le> t_c t'" "t_c t' < int n"
      by (simp_all add: in_bounds_def list_all_iff)
    from t' Cons.prems(4) have "b ! nat (t_r t') ! nat (t_c t') = Null" by simp
    moreover from ne rc rc' have "\<not> (nat (t_r t') = ?r \<and> nat (t_c t') = ?c)"
      by (auto simp: nat_eq_iff)
    moreover from rc' have "nat (t_r t') < n" by simp
    ultimately show "?b1 ! nat (t_r t') ! nat (t_c t') = Null"
      using cell1 [of "nat (t_r t')" "nat (t_c t')"] by simp
  qed
  from Cons.prems(4) have "b ! ?r ! ?c = Null" by simp
  with mset_board_tiles_update [of ?r b ?c "Obj t"] rn cn len row
  have ms1: "mset (board_tiles ?b1) = mset (board_tiles b) + {#t#}" by simp
  from Cons.IH [OF sq1 rest dist free1 lab1] obtain b' where
    "place_all ?b1 ts = Inr b'" "square n b'" "labeled n b'"
    "mset (board_tiles b') = mset (board_tiles ?b1) + mset ts"
    by blast
  with p ms1 show ?case by simp
qed

lemma square_empty: "square n (empty_board n)"
  by (simp add: square_def empty_board_def list_all_length)

lemma board_tiles_empty: "board_tiles (empty_board n) = []"
proof -
  have "tiles_of (replicate k Null) = []" for k by (induction k) auto
  then show ?thesis by (simp add: board_tiles_def empty_board_def)
qed

lemma toBoard_wellformed:
  assumes "wellformed tiles n"
  shows "\<exists>b. toBoard tiles n = Inr b \<and> square n b \<and> labeled n b
           \<and> mset (board_tiles b) = mset tiles"
proof -
  from assms have ib: "in_bounds tiles n" and dist: "distinct (map (\<lambda>t. (t_r t, t_c t)) tiles)"
    by (simp_all add: wellformed_def)
  have free: "\<forall>t\<in>set tiles. empty_board n ! nat (t_r t) ! nat (t_c t) = Null"
    using ib by (auto simp: in_bounds_def list_all_iff empty_board_def)
  have lab: "labeled n (empty_board n)"
    by (simp add: labeled_iff empty_board_def)
  from place_all_wellformed [OF square_empty ib dist free lab] show ?thesis
    by (simp add: toBoard_def board_tiles_empty)
qed

lemma mark_relabel:
  assumes "r < length b" "c < length (b ! r)"
  shows "mark b r c = b[r := (b ! r)[c := relabel r c (b ! r ! c)]]"
proof (cases "b ! r ! c")
  case (Obj t)
  then show ?thesis by (simp add: mark_def)
next
  case Null
  then have "(b ! r)[c := relabel r c (b ! r ! c)] = b ! r"
    by (metis list_update_id relabel.simps(2))
  with Null show ?thesis by (simp add: mark_def)
next
  case Undefined
  then have "(b ! r)[c := relabel r c (b ! r ! c)] = b ! r"
    by (metis list_update_id relabel.simps(3))
  with Undefined show ?thesis by (simp add: mark_def)
qed

lemma marks_row:
  assumes "r < length b" "k \<le> length (b ! r)"
  shows "foldl (\<lambda>b' c. mark b' r c) b [0..<k]
       = b[r := map (\<lambda>c. if c < k then relabel r c (b ! r ! c) else b ! r ! c) [0..<length (b ! r)]]"
  using assms(2)
proof (induction k)
  case 0
  have "map (\<lambda>c. b ! r ! c) [0..<length (b ! r)] = b ! r" by (rule map_nth)
  then show ?case by simp
next
  case (Suc k)
  let ?row = "\<lambda>k. map (\<lambda>c. if c < k then relabel r c (b ! r ! c) else b ! r ! c) [0..<length (b ! r)]"
  from Suc have IH: "foldl (\<lambda>b' c. mark b' r c) b [0..<k] = b[r := ?row k]" and k: "k < length (b ! r)"
    by simp_all
  have "foldl (\<lambda>b' c. mark b' r c) b [0..<Suc k] = mark (b[r := ?row k]) r k"
    by (simp add: IH)
  also have "\<dots> = (b[r := ?row k])[r := ((b[r := ?row k]) ! r)[k := relabel r k ((b[r := ?row k]) ! r ! k)]]"
    using assms(1) k by (intro mark_relabel) simp_all
  also have "\<dots> = b[r := (?row k)[k := relabel r k (b ! r ! k)]]"
    using assms(1) k by simp
  also have "(?row k)[k := relabel r k (b ! r ! k)] = ?row (Suc k)"
    using k by (intro nth_equalityI) (auto simp: nth_list_update less_Suc_eq)
  finally show ?case .
qed

lemma marks_col:
  assumes "k \<le> length b" "\<forall>r<length b. c < length (b ! r)"
  shows "foldl (\<lambda>b' r. mark (b'[r := (b' ! r)[c := y ! r]]) r c) b [0..<k]
       = map (\<lambda>r. if r < k then (b ! r)[c := relabel r c (y ! r)] else b ! r) [0..<length b]"
  using assms(1)
proof (induction k)
  case 0
  have "map (\<lambda>r. b ! r) [0..<length b] = b" by (rule map_nth)
  then show ?case by simp
next
  case (Suc k)
  let ?M = "\<lambda>k. map (\<lambda>r. if r < k then (b ! r)[c := relabel r c (y ! r)] else b ! r) [0..<length b]"
  from Suc have IH: "foldl (\<lambda>b' r. mark (b'[r := (b' ! r)[c := y ! r]]) r c) b [0..<k] = ?M k"
    and k: "k < length b"
    by simp_all
  from k assms(2) have c: "c < length (b ! k)" by simp
  let ?b1 = "(?M k)[k := (?M k ! k)[c := y ! k]]"
  have Mk: "?M k ! k = b ! k" using k by simp
  have b1k: "?b1 ! k = (b ! k)[c := y ! k]" using k by (simp add: Mk)
  have "foldl (\<lambda>b' r. mark (b'[r := (b' ! r)[c := y ! r]]) r c) b [0..<Suc k] = mark ?b1 k c"
    by (simp add: IH)
  also have "\<dots> = ?b1[k := (?b1 ! k)[c := relabel k c (?b1 ! k ! c)]]"
    using k c by (intro mark_relabel) (simp_all add: b1k)
  also have "\<dots> = (?M k)[k := (b ! k)[c := relabel k c (y ! k)]]"
    using k c by (simp add: b1k)
  also have "\<dots> = ?M (Suc k)"
    using k by (intro nth_equalityI) (auto simp: nth_list_update less_Suc_eq)
  finally show ?case .
qed

lemma accounted_swap:
  assumes "accounted K K' g" "B' + K = B + K'"
  shows "accounted B B' g"
proof -
  from assms(1) obtain ms where
    1: "K + mset (map (\<lambda>v. v * 2) ms) = K' + mset ms + mset ms" "g = sum_list (map (\<lambda>v. v * 2) ms)"
    unfolding accounted_def by blast
  have "(B + mset (map (\<lambda>v. v * 2) ms)) + K = B + (K + mset (map (\<lambda>v. v * 2) ms))"
    by (simp add: ac_simps)
  also have "\<dots> = (B + K') + mset ms + mset ms"
    by (simp only: 1(1)) (simp add: ac_simps)
  also have "\<dots> = (B' + mset ms + mset ms) + K"
    by (simp only: assms(2) [symmetric]) (simp add: ac_simps)
  finally have "B + mset (map (\<lambda>v. v * 2) ms) = B' + mset ms + mset ms"
    by simp
  with 1(2) show ?thesis unfolding accounted_def by blast
qed

lemma cell_vals_relabel: "cell_vals (relabel r c x) = cell_vals x"
  by (cases x) simp_all

lemma alive_relabel: "alive (relabel r c x) = alive x"
  by (cases x) simp_all

lemma line_vals_relabel_row: "line_vals (relabel_row r row) = line_vals row"
proof -
  have "map cell_vals (relabel_row r row) = map (\<lambda>c. cell_vals (row ! c)) [0..<length row]"
    by (simp add: relabel_row_def cell_vals_relabel)
  also have "\<dots> = map cell_vals row" by (rule map_nth_upt [OF refl])
  finally show ?thesis by (simp add: line_vals_def)
qed

lemma length_relabel_row: "length (relabel_row r row) = length row"
  by (simp add: relabel_row_def)

lemma relabel_row_nth: "c < length row \<Longrightarrow> relabel_row r row ! c = relabel r c (row ! c)"
  by (simp add: relabel_row_def)

lemma slideLine_vals:
  "accounted (line_vals line) (line_vals (sl_line (slideLine line d))) (sl_gained (slideLine line d))"
  using slideLine_accounted [of line d] by (simp add: values_of_tiles_of)

lemma list_all_update: "list_all P xs \<Longrightarrow> P x \<Longrightarrow> list_all P (xs[i := x])"
  using set_update_subset_insert [of xs i x] by (auto simp: list_all_iff)

lemma sl_step_alive:
  assumes "i < length (sl_line s)" "list_all alive (sl_line s)"
  shows "list_all alive (sl_line (sl_step d s i))"
  using assms(1)
proof (cases rule: sl_step_cases [where d = d])
  case skip
  with assms show ?thesis by simp
next
  case (stay t)
  with assms show ?thesis by simp
next
  case (slide t ni)
  from assms slide(1) have "alive (Obj t)" by (metis list_all_length)
  with assms(2) slide(6) show ?thesis by (simp add: list_all_update)
next
  case (merge t u ni)
  from assms(2) merge(4,5) have "alive (Obj u)" by (metis list_all_length)
  then have "alive (Obj (u\<lparr>t_value := t_value u * 2, t_bump := True\<rparr>))" by simp
  with assms(2) merge(8) show ?thesis by (simp add: list_all_update)
qed

lemma slideLine_alive:
  assumes "list_all alive line"
  shows "list_all alive (sl_line (slideLine line d))"
proof -
  have "list_all alive (sl_line (slideLine line d)) \<and> length (sl_line (slideLine line d)) = length line"
  proof (rule slideLine_inv [where P = "\<lambda>s. list_all alive (sl_line s)"])
    show "list_all alive (sl_line (sl_init line))" using assms by (simp add: sl_init_def)
    show "list_all alive (sl_line (sl_step d s i))"
      if "length (sl_line s) = length line" "list_all alive (sl_line s)" "i < length line" for s i
      using that by (intro sl_step_alive) simp_all
  qed
  then show ?thesis ..
qed

lemma relabel_id: "(\<And>t. x = Obj t \<Longrightarrow> t_r t = int r \<and> t_c t = int c) \<Longrightarrow> relabel r c x = x"
  by (cases x) simp_all

lemma relabel_coords: "relabel r c x = Obj t \<Longrightarrow> t_r t = int r \<and> t_c t = int c"
  by (cases x) auto

lemma row_step_closed:
  assumes "square n b" "r < n"
  shows "row_step d n (b, m, g) r
       = (b[r := relabel_row r (sl_line (slideLine (b ! r) d))],
          m \<or> sl_moved (slideLine (b ! r) d), g + sl_gained (slideLine (b ! r) d))"
proof -
  let ?L = "sl_line (slideLine (b ! r) d)"
  let ?b1 = "b[r := ?L]"
  from assms have len: "length b = n" and row: "length (b ! r) = n"
    by (simp_all add: square_length square_row)
  have L: "length ?L = n" by (simp add: slideLine_length row)
  have b1r: "?b1 ! r = ?L" using assms(2) len by simp
  have "foldl (\<lambda>b' c. mark b' r c) ?b1 [0..<n]
      = ?b1[r := map (\<lambda>c. if c < n then relabel r c (?b1 ! r ! c) else ?b1 ! r ! c) [0..<length (?b1 ! r)]]"
    using assms(2) len L by (intro marks_row) (simp_all add: b1r)
  also have "map (\<lambda>c. if c < n then relabel r c (?b1 ! r ! c) else ?b1 ! r ! c) [0..<length (?b1 ! r)]
      = relabel_row r ?L"
    unfolding b1r by (simp add: relabel_row_def L)
  also have "?b1[r := relabel_row r ?L] = b[r := relabel_row r ?L]" by simp
  finally show ?thesis by (simp add: row_step_def Let_def)
qed

lemma board_vals_update:
  "r < length b \<Longrightarrow> board_vals (b[r := new]) + line_vals (b ! r) = board_vals b + line_vals new"
  unfolding board_vals_def by (rule sum_list_map_update)

lemma list_all2_nth: "list_all (list_all P) b \<Longrightarrow> r < length b \<Longrightarrow> list_all P (b ! r)"
  by (simp add: list_all_length)

lemma row_step_inv:
  assumes inv: "board_inv n b0 st" and r: "r < n"
  shows "board_inv n b0 (row_step d n st r)"
proof -
  obtain b m g where st: "st = (b, m, g)" by (cases st)
  let ?res = "slideLine (b ! r) d"
  let ?L = "sl_line ?res"
  let ?new = "relabel_row r ?L"
  from inv st have sq: "square n b" and lab: "labeled n b"
    and al: "list_all (list_all alive) b0 \<longrightarrow> list_all (list_all alive) b"
    and acc: "accounted (board_vals b0) (board_vals b) g" and un: "\<not> m \<longrightarrow> b = b0 \<and> g = 0"
    by (simp_all add: board_inv_def)
  from sq r have len: "length b = n" and row: "length (b ! r) = n"
    by (simp_all add: square_length square_row)
  have L: "length ?L = n" by (simp add: slideLine_length row)
  have new: "length ?new = n" by (simp add: length_relabel_row L)
  have sq': "square n (b[r := ?new])" using sq new by (rule square_update)
  have lab': "labeled n (b[r := ?new])"
    unfolding labeled_iff
  proof (intro allI impI)
    fix r' c' t assume a: "r' < n" "c' < n" "b[r := ?new] ! r' ! c' = Obj t"
    show "t_r t = int r' \<and> t_c t = int c'"
    proof (cases "r' = r")
      case True
      with a len L have "relabel r c' (?L ! c') = Obj t" by (simp add: relabel_row_nth)
      with True show ?thesis by (simp add: relabel_coords)
    next
      case False
      with a len have "b ! r' ! c' = Obj t" by simp
      with lab a show ?thesis by (simp add: labeled_iff)
    qed
  qed
  have al': "list_all (list_all alive) (b[r := ?new])" if "list_all (list_all alive) b0"
  proof -
    from al that have alb: "list_all (list_all alive) b" by simp
    with r len have "list_all alive (b ! r)" by (simp add: list_all2_nth)
    then have "list_all alive ?L" by (rule slideLine_alive)
    then have "list_all alive ?new"
      by (simp add: list_all_length length_relabel_row relabel_row_nth alive_relabel)
    with alb show ?thesis by (rule list_all_update)
  qed
  have "board_vals (b[r := ?new]) + line_vals (b ! r) = board_vals b + line_vals ?L"
    using board_vals_update [of r b ?new] r len by (simp add: line_vals_relabel_row)
  with slideLine_vals [of "b ! r" d]
  have "accounted (board_vals b) (board_vals (b[r := ?new])) (sl_gained ?res)"
    by (rule accounted_swap)
  with acc have acc': "accounted (board_vals b0) (board_vals (b[r := ?new])) (g + sl_gained ?res)"
    by (rule accounted_trans)
  have un': "b[r := ?new] = b0 \<and> g + sl_gained ?res = 0" if "\<not> (m \<or> sl_moved ?res)"
  proof -
    from that un have b0: "b = b0" "g = 0" and nm: "\<not> sl_moved ?res" by simp_all
    from slideLine_unmoved [OF nm] have same: "?L = b ! r" and g0: "sl_gained ?res = 0" by simp_all
    have "relabel_row r (b ! r) = b ! r"
    proof (rule nth_equalityI)
      show "length (relabel_row r (b ! r)) = length (b ! r)" by (rule length_relabel_row)
      fix c assume "c < length (relabel_row r (b ! r))"
      then have c: "c < n" by (simp add: length_relabel_row row)
      have "relabel r c (b ! r ! c) = b ! r ! c"
        using lab r c by (intro relabel_id) (simp add: labeled_iff)
      with c row show "relabel_row r (b ! r) ! c = b ! r ! c" by (simp add: relabel_row_nth)
    qed
    with same have "b[r := ?new] = b" by simp
    with b0 g0 show ?thesis by simp
  qed
  from sq' lab' al' acc' un' show ?thesis
    unfolding st row_step_closed [OF sq r] board_inv_def by simp
qed

lemma col_step_closed:
  assumes "square n b" and that: "c < n"
  shows "col_step d n (b, m, g) c
       = (map (\<lambda>r. (b ! r)[c := relabel r c (sl_line (slideLine (map (\<lambda>r. b ! r ! c) [0..<n]) d) ! r)])
              [0..<n],
          m \<or> sl_moved (slideLine (map (\<lambda>r. b ! r ! c) [0..<n]) d),
          g + sl_gained (slideLine (map (\<lambda>r. b ! r ! c) [0..<n]) d))"
proof -
  let ?L = "sl_line (slideLine (map (\<lambda>r. b ! r ! c) [0..<n]) d)"
  from assms(1) have len: "length b = n" by (rule square_length)
  have wide: "\<forall>r<length b. c < length (b ! r)"
    using assms len by (simp add: square_row)
  have "foldl (\<lambda>b' r. mark (b'[r := (b' ! r)[c := ?L ! r]]) r c) b [0..<n]
      = map (\<lambda>r. if r < n then (b ! r)[c := relabel r c (?L ! r)] else b ! r) [0..<length b]"
    using len wide by (intro marks_col) simp_all
  also have "\<dots> = map (\<lambda>r. (b ! r)[c := relabel r c (?L ! r)]) [0..<n]"
    using len by simp
  finally show ?thesis by (simp add: col_step_def Let_def)
qed

lemma sum_list_add_upt:
  fixes f g :: "nat \<Rightarrow> 'a::comm_monoid_add"
  shows "sum_list (map (\<lambda>r. f r + g r) [0..<n]) = sum_list (map f [0..<n]) + sum_list (map g [0..<n])"
  by (rule sum_list_addf)

lemma col_vals:
  assumes "square n b" "c < n" "length ys = n"
  shows "board_vals (map (\<lambda>r. (b ! r)[c := relabel r c (ys ! r)]) [0..<n])
           + line_vals (map (\<lambda>r. b ! r ! c) [0..<n])
       = board_vals b + line_vals ys"
proof -
  from assms have len: "length b = n" by (simp add: square_length)
  have row: "line_vals ((b ! r)[c := relabel r c (ys ! r)]) + cell_vals (b ! r ! c)
           = line_vals (b ! r) + cell_vals (ys ! r)" if "r < n" for r
    using sum_list_map_update [of c "b ! r" cell_vals "relabel r c (ys ! r)"] assms(1,2) that
    by (simp add: line_vals_def square_row cell_vals_relabel)
  have A: "board_vals (map (\<lambda>r. (b ! r)[c := relabel r c (ys ! r)]) [0..<n])
      = sum_list (map (\<lambda>r. line_vals ((b ! r)[c := relabel r c (ys ! r)])) [0..<n])"
    by (simp add: board_vals_def o_def)
  have B: "line_vals (map (\<lambda>r. b ! r ! c) [0..<n]) = sum_list (map (\<lambda>r. cell_vals (b ! r ! c)) [0..<n])"
    by (simp add: line_vals_def o_def)
  have C: "board_vals b = sum_list (map (\<lambda>r. line_vals (b ! r)) [0..<n])"
    unfolding board_vals_def by (simp only: map_nth_upt [OF len])
  have D: "line_vals ys = sum_list (map (\<lambda>r. cell_vals (ys ! r)) [0..<n])"
    unfolding line_vals_def by (simp only: map_nth_upt [OF assms(3)])
  have "sum_list (map (\<lambda>r. line_vals ((b ! r)[c := relabel r c (ys ! r)])) [0..<n])
          + sum_list (map (\<lambda>r. cell_vals (b ! r ! c)) [0..<n])
      = sum_list (map (\<lambda>r. line_vals ((b ! r)[c := relabel r c (ys ! r)])
                                    + cell_vals (b ! r ! c)) [0..<n])"
    by (simp only: sum_list_add_upt)
  also have "\<dots> = sum_list (map (\<lambda>r. line_vals (b ! r) + cell_vals (ys ! r)) [0..<n])"
    using row by (intro arg_cong [where f = sum_list] map_cong) simp_all
  also have "\<dots> = sum_list (map (\<lambda>r. line_vals (b ! r)) [0..<n])
                 + sum_list (map (\<lambda>r. cell_vals (ys ! r)) [0..<n])"
    by (simp only: sum_list_add_upt)
  finally show ?thesis by (simp only: A B C D)
qed

lemma col_step_inv:
  assumes inv: "board_inv n b0 st" and c: "c < n"
  shows "board_inv n b0 (col_step d n st c)"
proof -
  obtain b m g where st: "st = (b, m, g)" by (cases st)
  let ?col = "map (\<lambda>r. b ! r ! c) [0..<n]"
  let ?res = "slideLine ?col d"
  let ?L = "sl_line ?res"
  let ?b' = "map (\<lambda>r. (b ! r)[c := relabel r c (?L ! r)]) [0..<n]"
  from inv st have sq: "square n b" and lab: "labeled n b"
    and al: "list_all (list_all alive) b0 \<longrightarrow> list_all (list_all alive) b"
    and acc: "accounted (board_vals b0) (board_vals b) g" and un: "\<not> m \<longrightarrow> b = b0 \<and> g = 0"
    by (simp_all add: board_inv_def)
  from sq have len: "length b = n" by (rule square_length)
  have L: "length ?L = n" by (simp add: slideLine_length)
  have rowlen: "length (b ! r) = n" if "r < n" for r using sq that by (rule square_row)
  have sq': "square n ?b'"
    by (simp add: square_def list_all_iff rowlen)
  have cell: "?b' ! r' ! c' = (if c' = c then relabel r' c (?L ! r') else b ! r' ! c')"
    if "r' < n" for r' c'
    using that c rowlen [OF that] by (cases "c' = c") simp_all
  have lab': "labeled n ?b'"
    unfolding labeled_iff
  proof (intro allI impI)
    fix r' c' t assume a: "r' < n" "c' < n" "?b' ! r' ! c' = Obj t"
    show "t_r t = int r' \<and> t_c t = int c'"
    proof (cases "c' = c")
      case True
      with a cell [OF a(1), of c'] have "relabel r' c (?L ! r') = Obj t" by simp
      with True show ?thesis by (simp add: relabel_coords)
    next
      case False
      with a cell [OF a(1), of c'] have "b ! r' ! c' = Obj t" by simp
      with lab a show ?thesis by (simp add: labeled_iff)
    qed
  qed
  have al': "list_all (list_all alive) ?b'" if "list_all (list_all alive) b0"
  proof -
    from al that have alb: "list_all (list_all alive) b" by simp
    have "alive (b ! r ! c)" if "r < n" for r
      using alb that c len rowlen [OF that] by (simp add: list_all_length)
    then have "list_all alive ?col" by (simp add: list_all_length)
    then have "list_all alive ?L" by (rule slideLine_alive)
    then have aliveL: "alive (relabel r c (?L ! r))" if "r < n" for r
      using that L by (simp add: list_all_length alive_relabel)
    have "list_all alive ((b ! r)[c := relabel r c (?L ! r)])" if "r < n" for r
      using alb that len aliveL [OF that] by (intro list_all_update) (simp_all add: list_all2_nth)
    then show ?thesis by (simp add: list_all_length)
  qed
  from col_vals [OF sq c L]
  have "board_vals ?b' + line_vals ?col = board_vals b + line_vals ?L" .
  with slideLine_vals [of ?col d]
  have "accounted (board_vals b) (board_vals ?b') (sl_gained ?res)"
    by (rule accounted_swap)
  with acc have acc': "accounted (board_vals b0) (board_vals ?b') (g + sl_gained ?res)"
    by (rule accounted_trans)
  have un': "?b' = b0 \<and> g + sl_gained ?res = 0" if "\<not> (m \<or> sl_moved ?res)"
  proof -
    from that un have b0: "b = b0" "g = 0" and nm: "\<not> sl_moved ?res" by simp_all
    from slideLine_unmoved [OF nm] have same: "?L = ?col" and g0: "sl_gained ?res = 0" by simp_all
    have "(b ! r)[c := relabel r c (?L ! r)] = b ! r" if "r < n" for r
    proof -
      from same that have "?L ! r = b ! r ! c" by simp
      moreover have "relabel r c (b ! r ! c) = b ! r ! c"
        using lab that c by (intro relabel_id) (simp add: labeled_iff)
      ultimately show ?thesis by simp
    qed
    then have "?b' = map (\<lambda>r. b ! r) [0..<n]" by simp
    also have "\<dots> = b" using len map_nth [of b] by simp
    finally show ?thesis using b0 g0 by simp
  qed
  from sq' lab' al' acc' un' show ?thesis
    unfolding st col_step_closed [OF sq c] board_inv_def by simp
qed

lemma foldl_inv:
  assumes "P st" "\<And>st k. P st \<Longrightarrow> k < n \<Longrightarrow> P (f st k)" "\<forall>k\<in>set ks. k < n"
  shows "P (foldl f st ks)"
  using assms(1,3) by (induction ks arbitrary: st) (simp_all add: assms(2))

lemma board_inv_init:
  assumes "square n b" "labeled n b"
  shows "board_inv n b (b, False, 0)"
  using assms by (simp add: board_inv_def accounted_refl)

lemma rows_inv:
  assumes "square n b" "labeled n b"
  shows "board_inv n b (foldl (row_step d n) (b, False, 0) [0..<n])"
proof (rule foldl_inv [where P = "board_inv n b" and n = n])
  show "board_inv n b (b, False, 0)" using assms by (rule board_inv_init)
  show "board_inv n b (row_step d n st k)" if "board_inv n b st" "k < n" for st k
    using that by (rule row_step_inv)
  show "\<forall>k\<in>set [0..<n]. k < n" by simp
qed

lemma cols_inv:
  assumes "square n b" "labeled n b"
  shows "board_inv n b (foldl (col_step d n) (b, False, 0) [0..<n])"
proof (rule foldl_inv [where P = "board_inv n b" and n = n])
  show "board_inv n b (b, False, 0)" using assms by (rule board_inv_init)
  show "board_inv n b (col_step d n st k)" if "board_inv n b st" "k < n" for st k
    using that by (rule col_step_inv)
  show "\<forall>k\<in>set [0..<n]. k < n" by simp
qed

lemma alive_tiles_of: "list_all alive row \<longleftrightarrow> (\<forall>t\<in>set (tiles_of row). \<not> t_dead t)"
  by (induction row rule: tiles_of.induct) auto

lemma alive_board_tiles: "list_all (list_all alive) b \<longleftrightarrow> (\<forall>t\<in>set (board_tiles b). \<not> t_dead t)"
  by (auto simp: board_tiles_def list_all_iff alive_tiles_of [unfolded list_all_iff])

lemma move_grid_wellformed:
  assumes "wellformed tiles n"
  shows "\<exists>b0 b m g. toBoard tiles n = Inr b0 \<and> mset (board_tiles b0) = mset tiles
           \<and> move_grid tiles n dir = Inr (b, m, g) \<and> board_inv n b0 (b, m, g)"
proof -
  from toBoard_wellformed [OF assms] obtain b0 where
    b0: "toBoard tiles n = Inr b0" "square n b0" "labeled n b0" "mset (board_tiles b0) = mset tiles"
    by blast
  define st where "st = (if dir = L \<or> dir = R
       then foldl (row_step (if dir = L then Neg else Pos) n) (b0, False, 0) [0..<n]
       else foldl (col_step (if dir = U then Neg else Pos) n) (b0, False, 0) [0..<n])"
  have inv: "board_inv n b0 st"
    unfolding st_def using rows_inv [OF b0(2,3)] cols_inv [OF b0(2,3)] by simp
  have mg: "move_grid tiles n dir = Inr st"
    using b0(1) by (simp add: move_grid_def cloneTiles_def st_def)
  obtain b m g where "st = (b, m, g)" by (cases st)
  with inv mg b0 show ?thesis by blast
qed

lemma distinct_concat_map:
  assumes "distinct ks" "\<And>k. k \<in> set ks \<Longrightarrow> distinct (f k)"
    and "\<And>k k' x. k \<in> set ks \<Longrightarrow> k' \<in> set ks \<Longrightarrow> k \<noteq> k' \<Longrightarrow> x \<in> set (f k) \<Longrightarrow> x \<notin> set (f k')"
  shows "distinct (concat (map f ks))"
  using assms
proof (induction ks)
  case Nil
  then show ?case by simp
next
  case (Cons k ks)
  have "distinct (concat (map f ks))"
    using Cons.prems by (intro Cons.IH) auto
  moreover have "distinct (f k)" using Cons.prems(2) by simp
  moreover have "set (f k) \<inter> set (concat (map f ks)) = {}"
  proof -
    have "x \<notin> set (f k')" if "x \<in> set (f k)" "k' \<in> set ks" for x k'
    proof -
      from Cons.prems(1) that(2) have "k \<noteq> k'" by auto
      with Cons.prems(3) [of k k' x] that show ?thesis by simp
    qed
    then show ?thesis by auto
  qed
  ultimately show ?case by simp
qed

lemma cell_list_set: "t \<in> set (case x of Obj t \<Rightarrow> [t] | _ \<Rightarrow> []) \<longleftrightarrow> x = Obj t"
  by (cases x) auto

lemma set_collect: "set (collect b n) = {t. \<exists>r<n. \<exists>c<n. b ! r ! c = Obj t}"
  unfolding collect_def by (auto simp: cell_list_set) (blast, metis atLeastLessThan_iff zero_le)

lemma collect_wellformed:
  assumes "labeled n b"
  shows "wellformed (collect b n) n"
proof -
  let ?cell = "\<lambda>r c. case b ! r ! c of Obj t \<Rightarrow> [t] | _ \<Rightarrow> []"
  let ?pos = "\<lambda>t. (t_r t, t_c t)"
  have cellpos: "?pos t = (int r, int c)" if "t \<in> set (?cell r c)" "r < n" "c < n" for t r c
    using that assms by (simp add: labeled_iff cell_list_set)
  have mem: "\<exists>r<n. \<exists>c<n. t \<in> set (?cell r c)" if "t \<in> set (collect b n)" for t
    using that by (simp add: set_collect cell_list_set) metis
  have "in_bounds (collect b n) n"
    unfolding in_bounds_def list_all_iff
  proof
    fix t assume "t \<in> set (collect b n)"
    from mem [OF this] obtain r c where rc: "r < n" "c < n" "t \<in> set (?cell r c)" by blast
    from cellpos [OF rc(3,1,2)] rc(1,2)
    show "0 \<le> t_r t \<and> t_r t < int n \<and> 0 \<le> t_c t \<and> t_c t < int n" by simp
  qed
  moreover have "distinct (map ?pos (collect b n))"
  proof -
    have eq: "map ?pos (collect b n)
        = concat (map (\<lambda>r. concat (map (\<lambda>c. map ?pos (?cell r c)) [0..<n])) [0..<n])"
      by (simp add: collect_def map_concat o_def)
    have inner: "distinct (concat (map (\<lambda>c. map ?pos (?cell r c)) [0..<n]))" if "r < n" for r
    proof (rule distinct_concat_map)
      show "distinct [0..<n]" by simp
      show "distinct (map ?pos (?cell r c))" for c by (simp split: cell.splits)
      show "x \<notin> set (map ?pos (?cell r c'))"
        if "c \<in> set [0..<n]" "c' \<in> set [0..<n]" "c \<noteq> c'" "x \<in> set (map ?pos (?cell r c))" for c c' x
      proof
        assume "x \<in> set (map ?pos (?cell r c'))"
        with that(2) cellpos [of _ r c'] \<open>r < n\<close> have "x = (int r, int c')" by auto
        moreover from that(1,4) cellpos [of _ r c] \<open>r < n\<close> have "x = (int r, int c)" by auto
        ultimately show False using that(3) by simp
      qed
    qed
    have "distinct (concat (map (\<lambda>r. concat (map (\<lambda>c. map ?pos (?cell r c)) [0..<n])) [0..<n]))"
    proof (rule distinct_concat_map)
      show "distinct [0..<n]" by simp
      show "distinct (concat (map (\<lambda>c. map ?pos (?cell r c)) [0..<n]))" if "r \<in> set [0..<n]" for r
        using that by (intro inner) simp
      show "x \<notin> set (concat (map (\<lambda>c. map ?pos (?cell r' c)) [0..<n]))"
        if "r \<in> set [0..<n]" "r' \<in> set [0..<n]" "r \<noteq> r'"
          "x \<in> set (concat (map (\<lambda>c. map ?pos (?cell r c)) [0..<n]))" for r r' x
      proof
        assume "x \<in> set (concat (map (\<lambda>c. map ?pos (?cell r' c)) [0..<n]))"
        then obtain c' t' where "c' < n" "t' \<in> set (?cell r' c')" "x = ?pos t'" by auto
        with cellpos [of t' r' c'] that(2) have 1: "fst x = int r'" by simp
        from that(4) obtain c t where "c < n" "t \<in> set (?cell r c)" "x = ?pos t" by auto
        with cellpos [of t r c] that(1) have "fst x = int r" by simp
        with 1 that(3) show False by simp
      qed
    qed
    with eq show ?thesis by simp
  qed
  ultimately show ?thesis by (simp add: wellformed_def)
qed

lemma wellformed_filter: "wellformed ts n \<Longrightarrow> wellformed (filter P ts) n"
  by (auto simp: wellformed_def in_bounds_def list_all_iff distinct_map_filter)

lemma move_result:
  assumes "wellformed tiles n"
  shows "\<exists>b0 b m g. toBoard tiles n = Inr b0 \<and> mset (board_tiles b0) = mset tiles
           \<and> move_grid tiles n dir = Inr (b, m, g) \<and> board_inv n b0 (b, m, g)
           \<and> move tiles n dir = Inr \<lparr>mv_tiles = filter (\<lambda>t. \<not> t_dead t) (collect b n),
                                      mv_moved = m, mv_gained = g\<rparr>"
proof -
  from move_grid_wellformed [OF assms, of dir] obtain b0 b m g where
    *: "toBoard tiles n = Inr b0" "mset (board_tiles b0) = mset tiles"
      "move_grid tiles n dir = Inr (b, m, g)" "board_inv n b0 (b, m, g)"
    by blast
  from *(3) have "move tiles n dir = Inr \<lparr>mv_tiles = filter (\<lambda>t. \<not> t_dead t) (collect b n),
      mv_moved = m, mv_gained = g\<rparr>"
    by (simp add: move_def)
  with * show ?thesis by blast
qed

lemma live_move_tiles:
  assumes "live tiles" "mset (board_tiles b0) = mset tiles" "board_inv n b0 (b, m, g)"
  shows "filter (\<lambda>t. \<not> t_dead t) (collect b n) = board_tiles b"
proof -
  from assms(2) have "set (board_tiles b0) = set tiles" by (rule mset_eq_setD)
  with assms(1) have "list_all (list_all alive) b0"
    unfolding alive_board_tiles by (simp add: live_def list_all_iff)
  with assms(3) have al: "list_all (list_all alive) b" and sq: "square n b"
    by (simp_all add: board_inv_def)
  from al have "\<forall>t\<in>set (board_tiles b). \<not> t_dead t" by (simp add: alive_board_tiles)
  then have "filter (\<lambda>t. \<not> t_dead t) (board_tiles b) = board_tiles b" by simp
  with sq show ?thesis by (simp add: collect_square)
qed

lemma sum_list_values_of: "sum_list (map t_value ts) = sum_mset (values_of ts)"
  by (induction ts) (simp_all add: values_of_def)

text \<open>
  Claim C1, as the code has it.  A move does not change the sum of the tile values: each merge
  removes two tiles of value \<open>v\<close> and adds one of value \<open>2 v\<close>.  The multiset of the values before
  the move, with the merged pairs removed and the merge results added, is the multiset of the
  values after the move, and \<^verbatim>\<open>gained\<close> is the sum of the merge results.
\<close>

theorem move_conserves_values:
  assumes "wellformed tiles n" "live tiles"
  shows "\<exists>res. move tiles n dir = Inr res
           \<and> sum_list (map t_value (mv_tiles res)) = sum_list (map t_value tiles)
           \<and> accounted (values_of tiles) (values_of (mv_tiles res)) (mv_gained res)"
proof -
  from move_result [OF assms(1), of dir] obtain b0 b m g where
    *: "mset (board_tiles b0) = mset tiles" "board_inv n b0 (b, m, g)"
      "move tiles n dir = Inr \<lparr>mv_tiles = filter (\<lambda>t. \<not> t_dead t) (collect b n),
                                mv_moved = m, mv_gained = g\<rparr>"
    by blast
  from live_move_tiles [OF assms(2) *(1,2)]
  have tiles': "filter (\<lambda>t. \<not> t_dead t) (collect b n) = board_tiles b" .
  from *(1) have "values_of tiles = board_vals b0"
    by (simp add: values_of_board_tiles [symmetric] values_of_def)
  moreover from *(2) have "accounted (board_vals b0) (board_vals b) g"
    by (simp add: board_inv_def)
  ultimately have acc: "accounted (values_of tiles) (values_of (board_tiles b)) g"
    by (simp add: values_of_board_tiles)
  from accounted_sum [OF acc]
  have "sum_list (map t_value (board_tiles b)) = sum_list (map t_value tiles)"
    by (simp add: sum_list_values_of)
  with acc *(3) tiles' show ?thesis by simp
qed

theorem move_conserves_values_witness:
  "wellformed [mk 1 0 0 2, mk 2 0 1 2, mk 3 1 1 4] 2 \<and> live [mk 1 0 0 2, mk 2 0 1 2, mk 3 1 1 4]
   \<and> (\<exists>res. move [mk 1 0 0 2, mk 2 0 1 2, mk 3 1 1 4] 2 L = Inr res
         \<and> sum_list (map t_value (mv_tiles res))
             = sum_list (map t_value [mk 1 0 0 2, mk 2 0 1 2, mk 3 1 1 4]))"
proof -
  have h1: "wellformed [mk 1 0 0 2, mk 2 0 1 2, mk 3 1 1 4] 2"
    by (simp add: wellformed_def in_bounds_def mk_def)
  have h2: "live [mk 1 0 0 2, mk 2 0 1 2, mk 3 1 1 4]" by (simp add: live_def mk_def)
  from move_conserves_values [OF h1 h2, of L] h1 h2 show ?thesis by blast
qed

text \<open>
  Claim C1 as stated fails: after merging two tiles of value 2 the sum of the tile values is
  still 4, not 4 plus the gain of 4.
\<close>

theorem sum_not_increased_by_gain:
  "wellformed [mk 1 0 0 2, mk 2 0 1 2] 2
   \<and> move [mk 1 0 0 2, mk 2 0 1 2] 2 L
       = Inr \<lparr>mv_tiles = [(mk 1 0 0 4)\<lparr>t_bump := True\<rparr>], mv_moved = True, mv_gained = 4\<rparr>
   \<and> sum_list (map t_value [(mk 1 0 0 4)\<lparr>t_bump := True\<rparr>])
       \<noteq> sum_list (map t_value [mk 1 0 0 2, mk 2 0 1 2]) + 4"
  by code_simp

text \<open>
  Claim C4.  When \<^verbatim>\<open>move\<close> reports \<^verbatim>\<open>moved = false\<close>, the tiles it returns are the tiles it was
  given, each with its identity, position, value and marks, and \<^verbatim>\<open>gained\<close> is 0.  The returned
  list is in row-major order, so the two lists are equal as multisets.
\<close>

theorem unmoved_returns_input:
  assumes "wellformed tiles n" "live tiles"
  shows "\<exists>res. move tiles n dir = Inr res
           \<and> (\<not> mv_moved res \<longrightarrow> mset (mv_tiles res) = mset tiles \<and> mv_gained res = 0)"
proof -
  from move_result [OF assms(1), of dir] obtain b0 b m g where
    *: "mset (board_tiles b0) = mset tiles" "board_inv n b0 (b, m, g)"
      "move tiles n dir = Inr \<lparr>mv_tiles = filter (\<lambda>t. \<not> t_dead t) (collect b n),
                                mv_moved = m, mv_gained = g\<rparr>"
    by blast
  from live_move_tiles [OF assms(2) *(1,2)]
  have tiles': "filter (\<lambda>t. \<not> t_dead t) (collect b n) = board_tiles b" .
  from *(2) have "\<not> m \<longrightarrow> b = b0 \<and> g = 0" by (simp add: board_inv_def)
  with *(1) have "\<not> m \<longrightarrow> mset (board_tiles b) = mset tiles \<and> g = 0" by auto
  with *(3) tiles' show ?thesis by simp
qed

theorem unmoved_returns_input_witness:
  "wellformed [mk 1 1 0 4, mk 2 0 0 2] 2 \<and> live [mk 1 1 0 4, mk 2 0 0 2]
   \<and> move [mk 1 1 0 4, mk 2 0 0 2] 2 L
       = Inr \<lparr>mv_tiles = [mk 2 0 0 2, mk 1 1 0 4], mv_moved = False, mv_gained = 0\<rparr>
   \<and> mset [mk 2 0 0 2, mk 1 1 0 4] = mset [mk 1 1 0 4, mk 2 0 0 2]"
proof -
  have h1: "wellformed [mk 1 1 0 4, mk 2 0 0 2] 2"
    by (simp add: wellformed_def in_bounds_def mk_def)
  have h2: "live [mk 1 1 0 4, mk 2 0 0 2]" by (simp add: live_def mk_def)
  have ev: "move [mk 1 1 0 4, mk 2 0 0 2] 2 L
      = Inr \<lparr>mv_tiles = [mk 2 0 0 2, mk 1 1 0 4], mv_moved = False, mv_gained = 0\<rparr>"
    by code_simp
  from unmoved_returns_input [OF h1 h2, of L] ev
  have "mset [mk 2 0 0 2, mk 1 1 0 4] = mset [mk 1 1 0 4, mk 2 0 0 2]" by simp
  with h1 h2 ev show ?thesis by blast
qed

text \<open>
  Claim C10.  On a well-formed tile set \<^verbatim>\<open>move\<close> returns a well-formed tile set: all
  coordinates lie in \<open>[0, n)\<close> and no two tiles share a cell.  The returned tiles are those of the
  grid that the loops leave, and each of them stores the cell of that grid that holds it.
\<close>

theorem move_wellformed:
  assumes "wellformed tiles n"
  shows "\<exists>res b m g. move tiles n dir = Inr res \<and> wellformed (mv_tiles res) n
           \<and> move_grid tiles n dir = Inr (b, m, g) \<and> labeled n b
           \<and> mv_tiles res = filter (\<lambda>t. \<not> t_dead t) (collect b n)"
proof -
  from move_result [OF assms(1), of dir] obtain b0 b m g where
    *: "move_grid tiles n dir = Inr (b, m, g)" "board_inv n b0 (b, m, g)"
      "move tiles n dir = Inr \<lparr>mv_tiles = filter (\<lambda>t. \<not> t_dead t) (collect b n),
                                mv_moved = m, mv_gained = g\<rparr>"
    by blast
  from *(2) have lab: "labeled n b" by (simp add: board_inv_def)
  then have "wellformed (filter (\<lambda>t. \<not> t_dead t) (collect b n)) n"
    by (intro wellformed_filter collect_wellformed)
  with * lab show ?thesis by simp
qed

theorem move_wellformed_witness:
  "wellformed [mk 1 0 1 2, mk 2 1 1 2, mk 3 1 0 4] 2
   \<and> (\<exists>res. move [mk 1 0 1 2, mk 2 1 1 2, mk 3 1 0 4] 2 U = Inr res \<and> wellformed (mv_tiles res) 2)"
proof -
  have h: "wellformed [mk 1 0 1 2, mk 2 1 1 2, mk 3 1 0 4] 2"
    by (simp add: wellformed_def in_bounds_def mk_def)
  from move_wellformed [OF h, of U] h show ?thesis by blast
qed


section \<open>The line reducer as a function on tile lists\<close>

lemma pos_less: "k < n \<Longrightarrow> pos d n k < n"
  by (cases d) auto

lemma pos_inj: "k < n \<Longrightarrow> k' < n \<Longrightarrow> pos d n k = pos d n k' \<longleftrightarrow> k = k'"
  by (cases d) auto

lemma order_pos: "order n d = map (pos d n) [0..<n]"
proof (cases d)
  case Neg
  then show ?thesis by (simp add: order_def map_idI)
next
  case Pos
  have "rev [0..<n] = map (\<lambda>k. n - 1 - k) [0..<n]"
    by (rule nth_equalityI) (simp_all add: rev_nth)
  with Pos show ?thesis by (simp add: order_def)
qed

lemma view_nth: "k < length line \<Longrightarrow> view d line ! k = line ! pos d (length line) k"
  by (cases d) (simp_all add: rev_nth)

lemma length_view: "length (view d line) = length line"
  by (cases d) simp_all

lemma pos_step_first:
  "0 < n \<Longrightarrow> int (pos d n 0) + delta d < 0 \<or> int n \<le> int (pos d n 0) + delta d"
  by (cases d) auto

lemma pos_step_next:
  assumes "0 < p" "p < n"
  shows "0 \<le> int (pos d n p) + delta d" "int (pos d n p) + delta d < int n"
    "nat (int (pos d n p) + delta d) = pos d n (p - 1)"
  using assms by (cases d; auto)+

lemma scan_pos:
  assumes len: "length line = n" and p: "p < n" and m: "m \<le> p"
    and nulls: "\<forall>k. m \<le> k \<and> k < p \<longrightarrow> line ! pos d n k = Null"
    and stop: "0 < m \<longrightarrow> line ! pos d n (m - 1) = Obj u"
  shows "scan line lk v d (pos d n p)
       = (if 0 < m \<and> pos d n (m - 1) \<notin> lk \<and> t_value u = v then pos d n (m - 1) else pos d n m)"
  using p m nulls
proof (induction "p - m" arbitrary: p)
  case 0
  then have pm: "p = m" by simp
  show ?case
  proof (cases "m = 0")
    case True
    with pm pos_step_first [of n d] 0 len show ?thesis
      by (subst scan.simps) auto
  next
    case False
    with pm 0 have mp: "0 < p" "p < n" by simp_all
    from False stop pm have u: "line ! pos d n (p - 1) = Obj u" by simp
    from pos_step_next [OF mp, of d] u len pm False show ?thesis
      by (subst scan.simps) auto
  qed
next
  case (Suc x)
  then have mp: "0 < p" "p < n" and m': "m \<le> p - 1" and x: "x = (p - 1) - m" by simp_all
  from Suc.prems have null: "line ! pos d n (p - 1) = Null"
    using mp m' by (metis diff_less less_numeral_extra(1))
  have nulls': "\<forall>k. m \<le> k \<and> k < p - 1 \<longrightarrow> line ! pos d n k = Null"
    using Suc.prems(3) by auto
  from mp have p': "p - 1 < n" by simp
  from Suc.hyps(1) [OF x p' m' nulls']
  have IH: "scan line lk v d (pos d n (p - 1))
       = (if 0 < m \<and> pos d n (m - 1) \<notin> lk \<and> t_value u = v then pos d n (m - 1) else pos d n m)" .
  from pos_step_next [OF mp, of d] null len
  have "scan line lk v d (pos d n p) = scan line lk v d (pos d n (p - 1))"
    by (subst scan.simps) auto
  with IH show ?case by simp
qed

lemma upd2_pos:
  assumes "length l = n" "a < n" "b < n" "k < n"
  shows "l[pos d n a := x, pos d n b := y] ! pos d n k
       = (if k = b then y else if k = a then x else l ! pos d n k)"
proof -
  have kb: "pos d n k = pos d n b \<longleftrightarrow> k = b" using assms(4,3) by (rule pos_inj)
  have ka: "pos d n k = pos d n a \<longleftrightarrow> k = a" using assms(4,2) by (rule pos_inj)
  have la: "pos d n a < length l" and lb: "pos d n b < length l"
    using assms(1-3) by (simp_all add: pos_less)
  show ?thesis
  proof (cases "k = b")
    case True
    with lb show ?thesis by simp
  next
    case nb: False
    with kb have 1: "pos d n b \<noteq> pos d n k" by simp
    show ?thesis
    proof (cases "k = a")
      case True
      with nb 1 la show ?thesis by simp
    next
      case False
      with ka have "pos d n a \<noteq> pos d n k" by simp
      with nb False 1 show ?thesis by simp
    qed
  qed
qed

lemma sl_invI:
  assumes "length (sl_line s) = length line0" "length out \<le> p"
    and "\<And>k. k < length out \<Longrightarrow> sl_line s ! pos d (length line0) k = Obj (out ! k)"
    and "\<And>k. length out \<le> k \<Longrightarrow> k < p \<Longrightarrow> sl_line s ! pos d (length line0) k = Null"
    and "\<And>k. p \<le> k \<Longrightarrow> k < length line0 \<Longrightarrow>
           sl_line s ! pos d (length line0) k = line0 ! pos d (length line0) k"
    and "sl_locked s \<subseteq> pos d (length line0) ` {..<length out}"
    and "lkd \<longleftrightarrow> 0 < length out \<and> pos d (length line0) (length out - 1) \<in> sl_locked s"
  shows "sl_inv d line0 p s (out, lkd)"
proof -
  have 3: "\<forall>k<length out. sl_line s ! pos d (length line0) k = Obj (out ! k)"
    using assms(3) by blast
  have 4: "\<forall>k. length out \<le> k \<and> k < p \<longrightarrow> sl_line s ! pos d (length line0) k = Null"
    using assms(4) by blast
  have 5: "\<forall>k. p \<le> k \<and> k < length line0 \<longrightarrow>
      sl_line s ! pos d (length line0) k = line0 ! pos d (length line0) k"
    using assms(5) by blast
  show ?thesis
    unfolding sl_inv_def prod.case using assms(1,2) 3 4 5 assms(6,7) by blast
qed

lemma sl_inv_skip:
  assumes inv: "sl_inv d line0 p s (out, lkd)" and p: "p < length line0"
    and x: "line0 ! pos d (length line0) p = Null"
  shows "sl_inv d line0 (Suc p) (sl_step d s (pos d (length line0) p)) (out, lkd)"
proof -
  let ?n = "length line0" and ?m = "length out"
  let ?l = "sl_line s"
  from inv have len: "length ?l = ?n" and mp: "?m \<le> p"
    and outs: "\<forall>k<?m. ?l ! pos d ?n k = Obj (out ! k)"
    and nulls: "\<forall>k. ?m \<le> k \<and> k < p \<longrightarrow> ?l ! pos d ?n k = Null"
    and rest: "\<forall>k. p \<le> k \<and> k < ?n \<longrightarrow> ?l ! pos d ?n k = line0 ! pos d ?n k"
    and lock: "sl_locked s \<subseteq> pos d ?n ` {..<?m}"
    and lkd: "lkd \<longleftrightarrow> 0 < ?m \<and> pos d ?n (?m - 1) \<in> sl_locked s"
    by (simp_all add: sl_inv_def)
  from rest p have cur: "?l ! pos d ?n p = line0 ! pos d ?n p" by simp
  with x have step: "sl_step d s (pos d ?n p) = s" by (simp add: sl_step_def)
  have J2: "?m \<le> Suc p" using mp by simp
  have J3: "?l ! pos d ?n k = Obj (out ! k)" if "k < ?m" for k using outs that by simp
  have J4: "?l ! pos d ?n k = Null" if "?m \<le> k" "k < Suc p" for k
  proof (cases "k = p")
    case True
    with cur x show ?thesis by simp
  next
    case False
    with that have "k < p" by simp
    with that(1) nulls show ?thesis by simp
  qed
  have J5: "?l ! pos d ?n k = line0 ! pos d ?n k" if "Suc p \<le> k" "k < ?n" for k
    using rest that by simp
  show ?thesis unfolding step by (rule sl_invI [OF len J2 J3 J4 J5 lock lkd])
qed

lemma sl_inv_tile:
  assumes inv: "sl_inv d line0 p s (out, lkd)" and p: "p < length line0"
    and x: "line0 ! pos d (length line0) p = Obj t"
  shows "sl_inv d line0 (Suc p) (sl_step d s (pos d (length line0) p)) (spec_push (out, lkd) t)"
proof -
  let ?n = "length line0" and ?m = "length out"
  let ?l = "sl_line s" and ?i = "pos d (length line0) p"
  from inv have len: "length ?l = ?n" and mp: "?m \<le> p"
    and outs: "\<forall>k<?m. ?l ! pos d ?n k = Obj (out ! k)"
    and nulls: "\<forall>k. ?m \<le> k \<and> k < p \<longrightarrow> ?l ! pos d ?n k = Null"
    and rest: "\<forall>k. p \<le> k \<and> k < ?n \<longrightarrow> ?l ! pos d ?n k = line0 ! pos d ?n k"
    and lock: "sl_locked s \<subseteq> pos d ?n ` {..<?m}"
    and lkd: "lkd \<longleftrightarrow> 0 < ?m \<and> pos d ?n (?m - 1) \<in> sl_locked s"
    by (simp_all add: sl_inv_def)
  from rest p x have cur: "?l ! ?i = Obj t" by simp
  have lastout: "?l ! pos d ?n (?m - 1) = Obj (last out)" if "0 < ?m"
    using that outs by (simp add: last_conv_nth)
  then have stop: "0 < ?m \<longrightarrow> ?l ! pos d ?n (?m - 1) = Obj (last out)" by simp
  define C where "C \<longleftrightarrow> out \<noteq> [] \<and> \<not> lkd \<and> t_value (last out) = t_value t"
  have C: "C \<longleftrightarrow> 0 < ?m \<and> pos d ?n (?m - 1) \<notin> sl_locked s \<and> t_value (last out) = t_value t"
    unfolding C_def using lkd by auto
  from scan_pos [OF len p mp nulls stop, of "sl_locked s" "t_value t"] C
  have scan: "scan ?l (sl_locked s) (t_value t) d ?i = (if C then pos d ?n (?m - 1) else pos d ?n ?m)"
    by simp
  have unlocked_m: "pos d ?n k \<notin> sl_locked s" if "?m \<le> k" "k < ?n" for k
  proof
    assume "pos d ?n k \<in> sl_locked s"
    with lock obtain k' where "k' < ?m" "pos d ?n k = pos d ?n k'" by auto
    with that mp p pos_inj [of k ?n k' d] show False by simp
  qed
  show ?thesis
  proof (cases C)
    case True
    from True C have m0: "0 < ?m" and ul: "pos d ?n (?m - 1) \<notin> sl_locked s"
      and eq: "t_value (last out) = t_value t"
      by simp_all
    from True C_def have ne: "out \<noteq> []" and nl: "\<not> lkd" by simp_all
    let ?ni = "pos d ?n (?m - 1)"
    let ?l' = "?l[?ni := Obj (merged (last out)), ?i := Null]"
    let ?out' = "butlast out @ [merged (last out)]"
    from m0 mp p have less: "?m - 1 < ?n" "?m - 1 < p" by arith+
    with p have nei: "?ni \<noteq> ?i" using pos_inj [of "?m - 1" ?n p d] by simp
    have mg: "mergeable s t ?ni" using lastout [OF m0] eq ul by (simp add: mergeable_def)
    have step: "sl_step d s ?i = s\<lparr>sl_line := ?l', sl_locked := insert ?ni (sl_locked s),
        sl_moved := True, sl_gained := sl_gained s + t_value (last out) * 2\<rparr>"
      using cur scan True nei mg lastout [OF m0]
      by (simp add: sl_step_def do_merge_def merged_def Let_def)
    have spec_push: "spec_push (out, lkd) t = (?out', True)"
      using ne nl eq by simp
    have cell: "?l' ! pos d ?n k
        = (if k = p then Null else if k = ?m - 1 then Obj (merged (last out)) else ?l ! pos d ?n k)"
      if "k < ?n" for k
      using upd2_pos [OF len less(1) p that] by simp
    have lout: "length ?out' = ?m" using ne by simp
    have I2: "?l' ! pos d ?n k = Obj (?out' ! k)" if "k < ?m" for k
    proof (cases "k = ?m - 1")
      case True
      with that mp p cell [of k] show ?thesis by (simp add: nth_append)
    next
      case False
      with that have "k < ?m - 1" by simp
      with that mp p cell [of k] outs show ?thesis by (simp add: nth_append nth_butlast)
    qed
    have I3: "?l' ! pos d ?n k = Null" if "?m \<le> k" "k < Suc p" for k
    proof (cases "k = p")
      case True
      with p cell [of k] show ?thesis by simp
    next
      case False
      from that m0 have "k \<noteq> ?m - 1" by arith
      moreover from that False p have "k < ?n" "k < p" by simp_all
      ultimately show ?thesis using False that cell [of k] nulls by simp
    qed
    have I4: "?l' ! pos d ?n k = line0 ! pos d ?n k" if "Suc p \<le> k" "k < ?n" for k
    proof -
      from that less have "k \<noteq> p" "k \<noteq> ?m - 1" by arith+
      with that cell [of k] rest show ?thesis by simp
    qed
    have "?m - 1 \<in> {..<?m}" using m0 by simp
    then have "?ni \<in> pos d ?n ` {..<?m}" by (rule imageI)
    with lock have I5: "insert ?ni (sl_locked s) \<subseteq> pos d ?n ` {..<?m}" by simp
    let ?s' = "s\<lparr>sl_line := ?l', sl_locked := insert ?ni (sl_locked s),
        sl_moved := True, sl_gained := sl_gained s + t_value (last out) * 2\<rparr>"
    have J1: "length (sl_line ?s') = length line0" by (simp add: len)
    have J2: "length ?out' \<le> Suc p" using mp by (simp only: lout)
    have J3: "sl_line ?s' ! pos d ?n k = Obj (?out' ! k)" if "k < length ?out'" for k
      using I2 [of k] that by (simp only: lout) simp
    have J4: "sl_line ?s' ! pos d ?n k = Null" if "length ?out' \<le> k" "k < Suc p" for k
      using I3 [of k] that by (simp only: lout) simp
    have J5: "sl_line ?s' ! pos d ?n k = line0 ! pos d ?n k" if "Suc p \<le> k" "k < ?n" for k
      using I4 [of k] that by simp
    have J6: "sl_locked ?s' \<subseteq> pos d ?n ` {..<length ?out'}"
      using I5 by (simp only: lout) simp
    have J7: "True \<longleftrightarrow> 0 < length ?out' \<and> pos d ?n (length ?out' - 1) \<in> sl_locked ?s'"
      using m0 by (simp only: lout) simp
    show ?thesis
      unfolding step spec_push by (rule sl_invI [OF J1 J2 J3 J4 J5 J6 J7])
  next
    case False
    let ?ni = "pos d ?n ?m"
    have spec_push: "spec_push (out, lkd) t = (out @ [t], False)"
      using False by (simp add: C_def)
    have I5: "sl_locked s \<subseteq> pos d ?n ` {..<Suc ?m}" using lock by auto
    show ?thesis
    proof (cases "?m = p")
      case True
      with scan False cur have step: "sl_step d s ?i = s" by (simp add: sl_step_def)
      have I2: "?l ! pos d ?n k = Obj ((out @ [t]) ! k)" if "k < Suc ?m" for k
      proof (cases "k = ?m")
        case k: True
        have "(out @ [t]) ! ?m = t" by simp
        with cur True k show ?thesis by simp
      next
        case False
        with that have "k < ?m" by simp
        with outs show ?thesis by (simp add: nth_append)
      qed
      have I3: "?l ! pos d ?n k = Null" if "Suc ?m \<le> k" "k < Suc p" for k
        using that True by simp
      have I4: "?l ! pos d ?n k = line0 ! pos d ?n k" if "Suc p \<le> k" "k < ?n" for k
        using that rest by simp
      have I6: "?ni \<notin> sl_locked s" using unlocked_m [of ?m] True p by simp
      have J2: "length (out @ [t]) \<le> Suc p" using True by simp
      have J3: "?l ! pos d ?n k = Obj ((out @ [t]) ! k)" if "k < length (out @ [t])" for k
        using I2 [of k] that by simp
      have J4: "?l ! pos d ?n k = Null" if "length (out @ [t]) \<le> k" "k < Suc p" for k
        using I3 [of k] that by simp
      have J6: "sl_locked s \<subseteq> pos d ?n ` {..<length (out @ [t])}" using I5 by simp
      have J7: "False \<longleftrightarrow> 0 < length (out @ [t])
          \<and> pos d ?n (length (out @ [t]) - 1) \<in> sl_locked s"
        using I6 by simp
      show ?thesis
        unfolding step spec_push by (rule sl_invI [OF len J2 J3 J4 I4 J6 J7])
    next
      case ne: False
      with mp have mlt: "?m < p" by simp
      with p have mn: "?m < ?n" by simp
      let ?l' = "?l[?ni := Obj t, ?i := Null]"
      from mlt p have nei: "?ni \<noteq> ?i" using pos_inj [of ?m ?n p d] by simp
      from nulls mlt have nul: "?l ! ?ni = Null" by simp
      then have nm: "\<not> mergeable s t ?ni" by (simp add: mergeable_def)
      have step: "sl_step d s ?i = s\<lparr>sl_line := ?l', sl_moved := True\<rparr>"
        using cur scan False nei nm by (simp add: sl_step_def do_slide_def Let_def)
      have cell: "?l' ! pos d ?n k
          = (if k = p then Null else if k = ?m then Obj t else ?l ! pos d ?n k)"
        if "k < ?n" for k
        using upd2_pos [OF len mn p that] by simp
      have I2: "?l' ! pos d ?n k = Obj ((out @ [t]) ! k)" if "k < Suc ?m" for k
      proof (cases "k = ?m")
        case True
        have "(out @ [t]) ! ?m = t" by simp
        with True mlt p cell [of k] show ?thesis by simp
      next
        case False
        with that have "k < ?m" by simp
        with mlt p cell [of k] outs show ?thesis by (simp add: nth_append)
      qed
      have I3: "?l' ! pos d ?n k = Null" if "Suc ?m \<le> k" "k < Suc p" for k
      proof (cases "k = p")
        case True
        with p cell [of k] show ?thesis by simp
      next
        case False
        with that p cell [of k] nulls show ?thesis by simp
      qed
      have I4: "?l' ! pos d ?n k = line0 ! pos d ?n k" if "Suc p \<le> k" "k < ?n" for k
        using that mlt cell [of k] rest by simp
      have I6: "?ni \<notin> sl_locked s" using unlocked_m [of ?m] mn by simp
      let ?s' = "s\<lparr>sl_line := ?l', sl_moved := True\<rparr>"
      have J1: "length (sl_line ?s') = length line0" by (simp add: len)
      have J2: "length (out @ [t]) \<le> Suc p" using mlt by simp
      have J3: "sl_line ?s' ! pos d ?n k = Obj ((out @ [t]) ! k)" if "k < length (out @ [t])" for k
        using I2 [of k] that by simp
      have J4: "sl_line ?s' ! pos d ?n k = Null" if "length (out @ [t]) \<le> k" "k < Suc p" for k
        using I3 [of k] that by simp
      have J5: "sl_line ?s' ! pos d ?n k = line0 ! pos d ?n k" if "Suc p \<le> k" "k < ?n" for k
        using I4 [of k] that by simp
      have J6: "sl_locked ?s' \<subseteq> pos d ?n ` {..<length (out @ [t])}" using I5 by simp
      have J7: "False \<longleftrightarrow> 0 < length (out @ [t])
          \<and> pos d ?n (length (out @ [t]) - 1) \<in> sl_locked ?s'"
        using I6 by simp
      show ?thesis
        unfolding step spec_push by (rule sl_invI [OF J1 J2 J3 J4 J5 J6 J7])
    qed
  qed
qed

lemma sl_inv_step:
  assumes "sl_inv d line0 p s ab" "p < length line0" "line0 ! pos d (length line0) p \<noteq> Undefined"
  shows "sl_inv d line0 (Suc p) (sl_step d s (pos d (length line0) p))
           (feed ab (line0 ! pos d (length line0) p))"
proof -
  obtain out lkd where ab: "ab = (out, lkd)" by (cases ab)
  show ?thesis
  proof (cases "line0 ! pos d (length line0) p")
    case Undefined
    with assms(3) show ?thesis by simp
  next
    case Null
    with sl_inv_skip [OF assms(1) [unfolded ab] assms(2) Null] ab show ?thesis by simp
  next
    case (Obj t)
    with sl_inv_tile [OF assms(1) [unfolded ab] assms(2) Obj] ab show ?thesis by simp
  qed
qed

lemma sl_inv_init: "sl_inv d line0 0 (sl_init line0) ([], False)"
  by (simp add: sl_inv_def sl_init_def)

lemma clean_nth: "clean line \<Longrightarrow> k < length line \<Longrightarrow> line ! k \<noteq> Undefined"
  by (simp add: clean_def list_all_length)

lemma sl_inv_loop:
  assumes "clean line0" "p \<le> length line0"
  shows "sl_inv d line0 p (foldl (sl_step d) (sl_init line0) (map (pos d (length line0)) [0..<p]))
           (foldl feed ([], False) (take p (view d line0)))"
  using assms(2)
proof (induction p)
  case 0
  show ?case by (simp add: sl_inv_init)
next
  case (Suc p)
  let ?n = "length line0"
  from Suc.prems have p: "p < ?n" by simp
  then have IH: "sl_inv d line0 p (foldl (sl_step d) (sl_init line0) (map (pos d ?n) [0..<p]))
      (foldl feed ([], False) (take p (view d line0)))"
    using Suc.IH by simp
  from p have "pos d ?n p < ?n" by (rule pos_less)
  with assms(1) have ok: "line0 ! pos d ?n p \<noteq> Undefined" by (rule clean_nth)
  have tk: "take (Suc p) (view d line0) = take p (view d line0) @ [line0 ! pos d ?n p]"
    using p by (simp add: take_Suc_conv_app_nth length_view view_nth)
  from sl_inv_step [OF IH p ok] show ?case by (simp add: tk)
qed

lemma foldl_feed: "foldl feed ab xs = foldl spec_push ab (tiles_of xs)"
  by (induction xs arbitrary: ab rule: tiles_of.induct) simp_all

lemma slideLine_final:
  assumes "clean line"
  shows "sl_inv d line (length line) (slideLine line d)
           (foldl spec_push ([], False) (tiles_of (view d line)))"
  using sl_inv_loop [OF assms order_refl, of d]
  by (simp add: slideLine_def order_pos length_view foldl_feed)

text \<open>
  On a line without holes \<^verbatim>\<open>slideLine\<close> computes the reduction of the specification: read
  from the target end, the result is the reduced tile list followed by empty cells.
\<close>

theorem slideLine_reduce:
  assumes "clean line"
  shows "view d (sl_line (slideLine line d))
       = map Obj (spec_reduce (tiles_of (view d line)))
         @ replicate (length line - length (spec_reduce (tiles_of (view d line)))) Null"
proof -
  let ?n = "length line"
  let ?res = "sl_line (slideLine line d)"
  obtain out lkd where ab: "foldl spec_push ([], False) (tiles_of (view d line)) = (out, lkd)"
    by (cases "foldl spec_push ([], False) (tiles_of (view d line))")
  then have red: "spec_reduce (tiles_of (view d line)) = out" by (simp add: spec_reduce_def)
  from slideLine_final [OF assms, of d] ab
  have len: "length ?res = ?n" and m: "length out \<le> ?n"
    and outs: "\<forall>k<length out. ?res ! pos d ?n k = Obj (out ! k)"
    and nulls: "\<forall>k. length out \<le> k \<and> k < ?n \<longrightarrow> ?res ! pos d ?n k = Null"
    by (simp_all add: sl_inv_def)
  have "view d ?res = map Obj out @ replicate (?n - length out) Null"
  proof (rule nth_equalityI)
    show "length (view d ?res) = length (map Obj out @ replicate (?n - length out) Null)"
      using m by (simp add: length_view len)
    fix k assume "k < length (view d ?res)"
    then have k: "k < ?n" by (simp add: length_view len)
    then have v: "view d ?res ! k = ?res ! pos d ?n k" using view_nth [of k ?res d] len by simp
    show "view d ?res ! k = (map Obj out @ replicate (?n - length out) Null) ! k"
    proof (cases "k < length out")
      case True
      with outs v show ?thesis by (simp add: nth_append)
    next
      case False
      with nulls k v show ?thesis by (simp add: nth_append)
    qed
  qed
  with red show ?thesis by simp
qed

lemma push_prefix:
  "ys \<noteq> [] \<Longrightarrow> spec_push (pre @ ys, lkd) t = (pre @ fst (spec_push (ys, lkd) t), snd (spec_push (ys, lkd) t))"
  by (simp add: butlast_append)

lemma push_nonempty: "fst (spec_push (ys, lkd) t) \<noteq> []"
  by simp

lemma foldl_push_prefix:
  assumes "ys \<noteq> []"
  shows "foldl spec_push (pre @ ys, lkd) ts
       = (pre @ fst (foldl spec_push (ys, lkd) ts), snd (foldl spec_push (ys, lkd) ts))"
  using assms
proof (induction ts arbitrary: ys lkd)
  case Nil
  then show ?case by simp
next
  case (Cons t ts)
  obtain zs l where z: "spec_push (ys, lkd) t = (zs, l)" by (cases "spec_push (ys, lkd) t")
  with push_prefix [OF Cons.prems, of pre lkd t] push_nonempty [of ys lkd t]
  have p: "spec_push (pre @ ys, lkd) t = (pre @ zs, l)" and zs: "zs \<noteq> []" by simp_all
  have "foldl spec_push (pre @ ys, lkd) (t # ts) = foldl spec_push (pre @ zs, l) ts"
    by (simp only: foldl_Cons p)
  also have "\<dots> = (pre @ fst (foldl spec_push (zs, l) ts), snd (foldl spec_push (zs, l) ts))"
    using zs by (rule Cons.IH)
  also have "foldl spec_push (zs, l) ts = foldl spec_push (ys, lkd) (t # ts)"
    by (simp only: foldl_Cons z)
  finally show ?case .
qed

lemma unlocked_last:
  assumes "foldl spec_push ([], False) xs = (out, False)" "xs \<noteq> []"
  shows "out \<noteq> [] \<and> last out = last xs"
proof -
  from assms(2) obtain ys y where xs: "xs = ys @ [y]" by (metis rev_exhaust)
  obtain o1 l1 where a: "foldl spec_push ([], False) ys = (o1, l1)"
    by (cases "foldl spec_push ([], False) ys")
  with assms(1) xs have "spec_push (o1, l1) y = (out, False)" by simp
  then have "out = o1 @ [y]" by (auto split: if_splits)
  with xs show ?thesis by simp
qed

lemma reduce_append:
  assumes "xs = [] \<or> ys = [] \<or> t_value (last xs) \<noteq> t_value (hd ys)"
  shows "spec_reduce (xs @ ys) = spec_reduce xs @ spec_reduce ys"
proof (cases "xs = [] \<or> ys = []")
  case True
  then show ?thesis by (auto simp: spec_reduce_def)
next
  case False
  then obtain y ys' where ys: "ys = y # ys'" and xs: "xs \<noteq> []" by (cases ys) auto
  with assms have ne: "t_value (last xs) \<noteq> t_value y" by simp
  obtain out lkd where a: "foldl spec_push ([], False) xs = (out, lkd)"
    by (cases "foldl spec_push ([], False) xs")
  have "spec_push (out, lkd) y = (out @ [y], False)"
  proof (cases lkd)
    case True
    then show ?thesis by simp
  next
    case False
    with a unlocked_last [of xs out] xs have "last out = last xs" by simp
    with ne show ?thesis by simp
  qed
  then have "foldl spec_push ([], False) (xs @ ys) = foldl spec_push (out @ [y], False) ys'"
    by (simp add: ys a)
  also have "\<dots> = (out @ fst (foldl spec_push ([y], False) ys'), snd (foldl spec_push ([y], False) ys'))"
    by (rule foldl_push_prefix) simp
  finally show ?thesis by (simp add: spec_reduce_def a ys)
qed

lemma reduce_three:
  assumes "t_value a = v" "t_value b = v" "t_value c = v"
  shows "spec_reduce [a, b, c] = [merged a, c]"
  using assms by (simp add: spec_reduce_def)

lemma reduce_three_in_context:
  assumes "t_value a = v" "t_value b = v" "t_value c = v"
    and "pre = [] \<or> t_value (last pre) \<noteq> v"
    and "post = [] \<or> t_value (hd post) \<noteq> v"
  shows "spec_reduce (pre @ [a, b, c] @ post) = spec_reduce pre @ [merged a, c] @ spec_reduce post"
proof -
  have "spec_reduce (pre @ ([a, b, c] @ post)) = spec_reduce pre @ spec_reduce ([a, b, c] @ post)"
    using assms(1,4) by (intro reduce_append) auto
  also have "spec_reduce ([a, b, c] @ post) = spec_reduce [a, b, c] @ spec_reduce post"
    using assms(3,5) by (intro reduce_append) auto
  finally show ?thesis using reduce_three [OF assms(1-3)] by simp
qed

lemma example_line:
  assumes "t_value a = 2" "t_value b = 2" "t_value c = 2"
  shows "sl_line (slideLine [Obj a, Null, Obj b, Obj c] Neg) = [Obj (merged a), Obj c, Null, Null]
     \<and> sl_gained (slideLine [Obj a, Null, Obj b, Obj c] Neg) = 4
     \<and> sl_moved (slideLine [Obj a, Null, Obj b, Obj c] Neg)"
  using assms
  by (simp add: slideLine_def order_def sl_init_def sl_step_def scan.simps mergeable_def
      do_merge_def do_slide_def merged_def upt_rec Let_def)

text \<open>
  Claim C2.  The line \<open>[2, null, 2, 2]\<close> slid toward index 0 becomes \<open>[4, 2, null, null]\<close>, with
  \<^verbatim>\<open>gained = 4\<close> and \<^verbatim>\<open>moved = true\<close>, whatever the identities of the three tiles.  In general,
  when a line without holes holds, in slide order, three consecutive tiles \<open>a\<close>, \<open>b\<close>, \<open>c\<close> of one
  value \<open>v\<close>, the tile before them and the tile after them (if any) having another value, then
  \<open>b\<close> merges into \<open>a\<close> and \<open>c\<close> comes to rest next to the merged tile, unmerged; the tiles
  before and after are reduced on their own, and the rest of the line is empty.
\<close>

theorem three_equal_tiles:
  "(t_value a = 2 \<and> t_value b = 2 \<and> t_value c = 2 \<longrightarrow>
      sl_line (slideLine [Obj a, Null, Obj b, Obj c] Neg) = [Obj (merged a), Obj c, Null, Null]
      \<and> sl_gained (slideLine [Obj a, Null, Obj b, Obj c] Neg) = 4
      \<and> sl_moved (slideLine [Obj a, Null, Obj b, Obj c] Neg))
   \<and> (clean line \<and> tiles_of (view d line) = pre @ [a, b, c] @ post
        \<and> t_value a = v \<and> t_value b = v \<and> t_value c = v
        \<and> (pre = [] \<or> t_value (last pre) \<noteq> v) \<and> (post = [] \<or> t_value (hd post) \<noteq> v) \<longrightarrow>
      view d (sl_line (slideLine line d))
        = map Obj (spec_reduce pre @ [merged a, c] @ spec_reduce post)
          @ replicate (length line - length (spec_reduce pre @ [merged a, c] @ spec_reduce post)) Null)"
proof (intro conjI impI)
  assume "t_value a = 2 \<and> t_value b = 2 \<and> t_value c = 2"
  then have v: "t_value a = 2" "t_value b = 2" "t_value c = 2" by simp_all
  from example_line [OF v]
  show "sl_line (slideLine [Obj a, Null, Obj b, Obj c] Neg) = [Obj (merged a), Obj c, Null, Null]"
    and "sl_gained (slideLine [Obj a, Null, Obj b, Obj c] Neg) = 4"
    and "sl_moved (slideLine [Obj a, Null, Obj b, Obj c] Neg)"
    by simp_all
next
  assume h: "clean line \<and> tiles_of (view d line) = pre @ [a, b, c] @ post
        \<and> t_value a = v \<and> t_value b = v \<and> t_value c = v
        \<and> (pre = [] \<or> t_value (last pre) \<noteq> v) \<and> (post = [] \<or> t_value (hd post) \<noteq> v)"
  then have cl: "clean line" and ts: "tiles_of (view d line) = pre @ [a, b, c] @ post"
    and v: "t_value a = v" "t_value b = v" "t_value c = v"
    and ctx: "pre = [] \<or> t_value (last pre) \<noteq> v" "post = [] \<or> t_value (hd post) \<noteq> v"
    by simp_all
  from reduce_three_in_context [OF v ctx]
  have "spec_reduce (tiles_of (view d line)) = spec_reduce pre @ [merged a, c] @ spec_reduce post"
    by (simp only: ts)
  with slideLine_reduce [OF cl, of d]
  show "view d (sl_line (slideLine line d))
        = map Obj (spec_reduce pre @ [merged a, c] @ spec_reduce post)
          @ replicate (length line - length (spec_reduce pre @ [merged a, c] @ spec_reduce post)) Null"
    by (simp only:)
qed

theorem three_equal_tiles_witness:
  "clean [Obj (mk 1 0 0 2), Obj (mk 2 0 1 2), Null, Obj (mk 3 0 3 2), Obj (mk 4 0 4 8)]
   \<and> tiles_of (view Pos [Obj (mk 1 0 0 2), Obj (mk 2 0 1 2), Null, Obj (mk 3 0 3 2), Obj (mk 4 0 4 8)])
       = [mk 4 0 4 8] @ [mk 3 0 3 2, mk 2 0 1 2, mk 1 0 0 2] @ []
   \<and> view Pos (sl_line (slideLine
        [Obj (mk 1 0 0 2), Obj (mk 2 0 1 2), Null, Obj (mk 3 0 3 2), Obj (mk 4 0 4 8)] Pos))
       = [Obj (mk 4 0 4 8), Obj (merged (mk 3 0 3 2)), Obj (mk 1 0 0 2), Null, Null]
   \<and> sl_line (slideLine [Obj (mk 1 0 0 2), Null, Obj (mk 2 0 2 2), Obj (mk 3 0 3 2)] Neg)
       = [Obj (merged (mk 1 0 0 2)), Obj (mk 3 0 3 2), Null, Null]"
proof -
  let ?line = "[Obj (mk 1 0 0 2), Obj (mk 2 0 1 2), Null, Obj (mk 3 0 3 2), Obj (mk 4 0 4 8)]"
  have h1: "clean ?line" by (simp add: clean_def)
  have h2: "tiles_of (view Pos ?line) = [mk 4 0 4 8] @ [mk 3 0 3 2, mk 2 0 1 2, mk 1 0 0 2] @ []"
    by simp
  have h3: "t_value (mk 3 0 3 2) = 2" "t_value (mk 2 0 1 2) = 2" "t_value (mk 1 0 0 2) = 2"
    "t_value (last [mk 4 0 4 8]) \<noteq> 2"
    by (simp_all add: mk_def)
  have r: "spec_reduce [mk 4 0 4 8] = [mk 4 0 4 8]" "spec_reduce [] = []" by (simp_all add: spec_reduce_def)
  from three_equal_tiles [of "mk 3 0 3 2" "mk 2 0 1 2" "mk 1 0 0 2" ?line Pos "[mk 4 0 4 8]" "[]" 2]
    h1 h2 h3
  have "view Pos (sl_line (slideLine ?line Pos))
      = map Obj (spec_reduce [mk 4 0 4 8] @ [merged (mk 3 0 3 2), mk 1 0 0 2] @ spec_reduce [])
        @ replicate (length ?line
            - length (spec_reduce [mk 4 0 4 8] @ [merged (mk 3 0 3 2), mk 1 0 0 2] @ spec_reduce [])) Null"
    by blast
  then have a: "view Pos (sl_line (slideLine ?line Pos))
      = [Obj (mk 4 0 4 8), Obj (merged (mk 3 0 3 2)), Obj (mk 1 0 0 2), Null, Null]"
    by (simp only: r) simp
  have g: "t_value (mk 1 0 0 2) = 2" "t_value (mk 2 0 2 2) = 2" "t_value (mk 3 0 3 2) = 2"
    by (simp_all add: mk_def)
  from three_equal_tiles [of "mk 1 0 0 2" "mk 2 0 2 2" "mk 3 0 3 2" "[]" Neg "[]" "[]" 0] g
  have b: "sl_line (slideLine [Obj (mk 1 0 0 2), Null, Obj (mk 2 0 2 2), Obj (mk 3 0 3 2)] Neg)
       = [Obj (merged (mk 1 0 0 2)), Obj (mk 3 0 3 2), Null, Null]"
    by blast
  from h1 h2 a b show ?thesis by blast
qed

end
